theory Spec2Isabelle
  imports Complex_Main "HOL-Library.Multiset"
begin

section \<open>Tight-binding model engine (pythtb.py)\<close>

text \<open>
  The engine works on numpy arrays of double-precision numbers.  The embedding keeps the
  source's control flow, index handling and failure points, and reads every floating-point
  number as the real (or complex) number it stands for: rounding error is not modelled, a
  tolerance such as \<open>1.0E-6\<close> is the rational \<open>1 / 10 ^ 6\<close>, and a result that numpy
  would fill with \<open>nan\<close> or \<open>inf\<close> is the outcome \<open>NonFinite\<close>.
\<close>

subsection \<open>Failures\<close>

text \<open>
  The source raises plain \<open>Exception\<close> objects with a message in its own validations;
  \<open>IndexError\<close>, \<open>ValueError\<close>, \<open>ZeroDivisionError\<close>, \<open>OverflowError\<close> and
  \<open>LinAlgError\<close> are what Python and numpy raise by themselves.  \<open>NonFinite\<close> is no
  exception: it marks an array holding \<open>nan\<close> or \<open>inf\<close>, which numpy returns with a
  warning.
\<close>

datatype error =
    Exception string
  | IndexError
  | ValueError
  | ZeroDivisionError
  | OverflowError
  | LinAlgError
  | NonFinite

type_synonym cmatrix = "complex list list"

definition nl :: string where
  "nl = [CHR 0x0A]"

definition msg_wrong_lat :: string where
  "msg_wrong_lat = nl @ ''Wrong lat array dimensions''"

definition msg_zero_volume :: string where
  "msg_zero_volume = nl @ nl @ ''Lattice vectors length/area/volume too close to zero, or zero.''"

definition msg_left_handed :: string where
  "msg_left_handed = nl @ nl @ ''Lattice vectors need to form right handed system.''"

definition msg_orb_rank :: string where
  "msg_orb_rank = nl @ ''Wrong orb array rank''"

definition msg_orb_dims :: string where
  "msg_orb_dims = nl @ ''Wrong orb array dimensions''"

definition msg_nspin :: string where
  "msg_nspin = nl @ ''Wrong value of nspin, must be 1 or 2!''"

definition msg_no_k :: string where
  "msg_no_k = nl @ nl @ ''Have to provide a k-vector!''"

definition msg_not_hermitian :: string where
  "msg_not_hermitian = nl @ nl @ ''Hamiltonian matrix is not hermitian?!''"

definition msg_mesh_size :: string where
  "msg_mesh_size = nl @ nl @ ''Incorrect size of the specified k-mesh!''"

definition msg_mesh_positive :: string where
  "msg_mesh_positive = nl @ nl @ ''Mesh must have positive non-zero number of elements.''"

definition msg_k_dims :: string where
  "msg_k_dims = nl @ nl @ ''k-space dimensions do not match''"

definition msg_more_points :: string where
  "msg_more_points = nl @ nl @ ''Must have more points in the path than number of nodes.''"

subsection \<open>Python and numpy primitives\<close>

text \<open>Python indexing of a sequence of length \<open>n\<close>: a negative index counts from the end.\<close>

definition py_index :: "nat \<Rightarrow> int \<Rightarrow> error + nat" where
  "py_index n i =
     (if 0 \<le> i \<and> i < int n then Inr (nat i)
      else if - int n \<le> i \<and> i < 0 then Inr (nat (i + int n))
      else Inl IndexError)"

text \<open>
  A nested list is turned into a two-dimensional array by \<open>np.array\<close> only when its rows
  have one length; with \<open>dtype=float\<close> a ragged list raises \<open>ValueError\<close>.
\<close>

definition ragged :: "'a list list \<Rightarrow> bool" where
  "ragged xs = (\<not> list_all (\<lambda>r. length r = length (hd xs)) xs)"

text \<open>
  Elementwise sum of two one-dimensional arrays, and \<open>a.dot(b)\<close>.  Both raise
  \<open>ValueError\<close> on arrays of different lengths (numpy would broadcast an array of length
  one in the sum; the orbital rows and translation vectors of a model all have length 3).
\<close>

definition vadd :: "real list \<Rightarrow> real list \<Rightarrow> error + real list" where
  "vadd a b = (if length a = length b then Inr (map2 (+) a b) else Inl ValueError)"

definition dot_sum :: "real list \<Rightarrow> real list \<Rightarrow> real" where
  "dot_sum a b = sum_list (map2 (*) a b)"

definition dot :: "real list \<Rightarrow> real list \<Rightarrow> error + real" where
  "dot a b = (if length a = length b then Inr (dot_sum a b) else Inl ValueError)"

text \<open>\<open>np.zeros((n,n),dtype=complex)\<close> and the update \<open>ham[i,j] += v\<close>.\<close>

definition zeros :: "nat \<Rightarrow> cmatrix" where
  "zeros n = replicate n (replicate n 0)"

definition mat_add_at :: "nat \<Rightarrow> nat \<Rightarrow> complex \<Rightarrow> cmatrix \<Rightarrow> cmatrix" where
  "mat_add_at i j v ham = ham[i := (ham ! i)[j := ham ! i ! j + v]]"

text \<open>A loop whose body may raise: the first failure ends it.\<close>

fun fold_err :: "('s \<Rightarrow> 'a \<Rightarrow> error + 's) \<Rightarrow> 'a list \<Rightarrow> 's \<Rightarrow> error + 's" where
  "fold_err f [] s = Inr s"
| "fold_err f (x # xs) s = (case f s x of Inl e \<Rightarrow> Inl e | Inr s' \<Rightarrow> fold_err f xs s')"

text \<open>Sequencing of steps that may raise.\<close>

definition bind_err :: "error + 'a \<Rightarrow> ('a \<Rightarrow> error + 'b) \<Rightarrow> error + 'b" where
  "bind_err x f = (case x of Inl e \<Rightarrow> Inl e | Inr v \<Rightarrow> f v)"

text \<open>\<open>np.linalg.det\<close> of a 3 by 3 array, in exact arithmetic.\<close>

definition det3 :: "real list list \<Rightarrow> real" where
  "det3 a =
     a ! 0 ! 0 * (a ! 1 ! 1 * a ! 2 ! 2 - a ! 1 ! 2 * a ! 2 ! 1)
   - a ! 0 ! 1 * (a ! 1 ! 0 * a ! 2 ! 2 - a ! 1 ! 2 * a ! 2 ! 0)
   + a ! 0 ! 2 * (a ! 1 ! 0 * a ! 2 ! 1 - a ! 1 ! 1 * a ! 2 ! 0)"

subsection \<open>The model and its constructor\<close>

text \<open>
  The constructor sets \<open>_dim_k\<close> and \<open>_dim_r\<close> to 3 for every model, so they are constants
  here and not fields.
\<close>

definition dim_k :: nat where
  "dim_k = 3"

definition dim_r :: nat where
  "dim_r = 3"

record tb_model =
  lat :: "real list list"
  orb :: "real list list"
  norb :: nat
  nspin :: int
  deg_ws :: "int list"
  Rvec_list :: "(int \<times> int \<times> int) list"
  Hmat_list :: "(int \<times> int \<times> complex) list list"

text \<open>
  \<open>tb_model.__init__\<close>.  The checks come in the source's order.  A translation vector is
  an integer triple, a matrix element a triple \<open>(i, j, amp)\<close>.
\<close>

definition tb_model_init ::
  "real list list \<Rightarrow> real list list \<Rightarrow> int list \<Rightarrow> (int \<times> int \<times> int) list \<Rightarrow>
   (int \<times> int \<times> complex) list list \<Rightarrow> int \<Rightarrow> error + tb_model" where
  "tb_model_init lat0 orb0 deg_ws0 Rvec_list0 Hmat_list0 nspin0 =
     (if ragged lat0 then Inl ValueError
      else if \<not> (length lat0 = dim_r \<and> list_all (\<lambda>r. length r = dim_r) lat0)
        then Inl (Exception msg_wrong_lat)
      else if \<bar>det3 lat0\<bar> < 1 / 10 ^ 6 then Inl (Exception msg_zero_volume)
      else if det3 lat0 < 0 then Inl (Exception msg_left_handed)
      else if ragged orb0 then Inl ValueError
      else if orb0 = [] then Inl (Exception msg_orb_rank)
      else if length (hd orb0) \<noteq> dim_r then Inl (Exception msg_orb_dims)
      else if nspin0 \<noteq> 1 \<and> nspin0 \<noteq> 2 then Inl (Exception msg_nspin)
      else Inr \<lparr> lat = lat0, orb = orb0, norb = length orb0, nspin = nspin0,
                 deg_ws = deg_ws0, Rvec_list = Rvec_list0, Hmat_list = Hmat_list0 \<rparr>)"

subsection \<open>The Bloch Hamiltonian: \<open>_gen_ham\<close>\<close>

definition vecR_list :: "int \<times> int \<times> int \<Rightarrow> real list" where
  "vecR_list vecR = (case vecR of (r1, r2, r3) \<Rightarrow> [of_int r1, of_int r2, of_int r3])"

text \<open>
  The body of the inner loop.  The state is the matrix and a flag that some summand was
  divided by a zero degeneracy (numpy then stores \<open>nan\<close> or \<open>inf\<close> and goes on).
\<close>

definition ham_step ::
  "tb_model \<Rightarrow> real list \<Rightarrow> int \<Rightarrow> int \<times> int \<times> int \<Rightarrow> cmatrix \<times> bool \<Rightarrow>
   int \<times> int \<times> complex \<Rightarrow> error + (cmatrix \<times> bool)" where
  "ham_step m kpnt deg vecR st ham12 =
     (let i = fst ham12; j = fst (snd ham12); amp = snd (snd ham12);
          ham = fst st; nonfinite = snd st in
      bind_err (py_index (length (orb m)) i) (\<lambda>oi.
      bind_err (py_index (length (orb m)) j) (\<lambda>oj.
      bind_err (vadd (map uminus (orb m ! oi)) (orb m ! oj)) (\<lambda>d.
      bind_err (vadd d (vecR_list vecR)) (\<lambda>rv.
      bind_err (dot kpnt rv) (\<lambda>kr.
      bind_err (py_index (norb m) i) (\<lambda>hi.
      bind_err (py_index (norb m) j) (\<lambda>hj.
        (let phase = exp (2 * \<i> * of_real pi * of_real kr);
             amp' = amp * (phase / of_int deg)
         in Inr (mat_add_at hi hj amp' ham, nonfinite \<or> deg = 0))))))))))"

definition shells ::
  "tb_model \<Rightarrow> (int \<times> (int \<times> int \<times> int) \<times> (int \<times> int \<times> complex) list) list" where
  "shells m = zip (deg_ws m) (zip (Rvec_list m) (Hmat_list m))"

definition shell_step ::
  "tb_model \<Rightarrow> real list \<Rightarrow> cmatrix \<times> bool \<Rightarrow>
   int \<times> (int \<times> int \<times> int) \<times> (int \<times> int \<times> complex) list \<Rightarrow> error + (cmatrix \<times> bool)" where
  "shell_step m kpnt st sh =
     (case sh of (deg, vecR, ham1) \<Rightarrow> fold_err (ham_step m kpnt deg vecR) ham1 st)"

definition gen_ham :: "tb_model \<Rightarrow> real list option \<Rightarrow> error + cmatrix" where
  "gen_ham m k_input =
     (case k_input of
        None \<Rightarrow> Inl (Exception msg_no_k)
      | Some kpnt \<Rightarrow>
          (case fold_err (shell_step m kpnt) (shells m) (zeros (norb m), False) of
             Inl e \<Rightarrow> Inl e
           | Inr (ham, nonfinite) \<Rightarrow> if nonfinite then Inl NonFinite else Inr ham))"

subsection \<open>The eigensolver wrapper: \<open>_sol_ham\<close> and \<open>_nicefy_eig\<close>\<close>

text \<open>
  numpy orders complex numbers lexicographically, by real part and then by imaginary part:
  \<open>cge\<close> and \<open>cgt\<close> are its \<open>>=\<close> and \<open>>\<close>, \<open>np_max\<close> is \<open>np.max\<close> of the flattened array
  (\<open>np.maximum.reduce\<close>), which raises \<open>ValueError\<close> on an empty array.
\<close>

definition cge :: "complex \<Rightarrow> complex \<Rightarrow> bool" where
  "cge x y = (Re y < Re x \<or> (Re x = Re y \<and> Im y \<le> Im x))"

definition cgt :: "complex \<Rightarrow> complex \<Rightarrow> bool" where
  "cgt x y = (Re y < Re x \<or> (Re x = Re y \<and> Im y < Im x))"

definition cmaximum :: "complex \<Rightarrow> complex \<Rightarrow> complex" where
  "cmaximum x y = (if cge x y then x else y)"

definition np_max :: "complex list \<Rightarrow> error + complex" where
  "np_max xs = (if xs = [] then Inl ValueError else Inr (fold (\<lambda>y acc. cmaximum acc y) (tl xs) (hd xs)))"

definition is_mat :: "nat \<Rightarrow> cmatrix \<Rightarrow> bool" where
  "is_mat n H = (length H = n \<and> list_all (\<lambda>r. length r = n) H)"

text \<open>The entries of \<open>ham - ham.T.conj()\<close> for a square array, row by row.\<close>

definition herm_dev :: "cmatrix \<Rightarrow> complex list" where
  "herm_dev ham =
     concat (map (\<lambda>a. map (\<lambda>b. ham ! a ! b - cnj (ham ! b ! a)) [0..<length ham]) [0..<length ham])"

text \<open>
  \<open>argsort\<close> gives the positions in ascending order of the values.  Equal values keep
  their order here; numpy's default sort leaves their order open, and no result below
  depends on it.  \<open>take_rows a args\<close> is the indexing \<open>a[args]\<close> along the first axis.
\<close>

definition argsort :: "real list \<Rightarrow> nat list" where
  "argsort xs = map snd (sort_key fst (zip xs [0..<length xs]))"

definition take_rows :: "'a list \<Rightarrow> nat list \<Rightarrow> error + 'a list" where
  "take_rows a args =
     (if list_all (\<lambda>i. i < length a) args then Inr (map (nth a) args) else Inl IndexError)"

definition nicefy_eig ::
  "complex list \<Rightarrow> cmatrix option \<Rightarrow> error + (real list \<times> cmatrix option)" where
  "nicefy_eig eval eig =
     (let eval1 = map Re eval;
          args = argsort eval1;
          eval2 = map (nth eval1) args
      in case eig of
           None \<Rightarrow> Inr (eval2, None)
         | Some e \<Rightarrow> bind_err (take_rows e args) (\<lambda>e'. Inr (eval2, Some e')))"

text \<open>
  \<open>_sol_ham\<close>.  The LAPACK drivers behind \<open>np.linalg.eigvalsh\<close> and \<open>np.linalg.eigh\<close> are
  parameters; their eigenvalues are taken as complex numbers, of which \<open>_nicefy_eig\<close> keeps
  the real parts.  \<open>ham\<close> is a square two-dimensional array, as \<open>_gen_ham\<close> returns it; a
  nested list of another shape is outside this model, which answers \<open>ValueError\<close> for it.
  The result is the eigenvalues, with the eigenvector array when \<open>eig_vectors\<close> is set.
\<close>

definition sol_ham ::
  "(cmatrix \<Rightarrow> complex list) \<Rightarrow> (cmatrix \<Rightarrow> complex list \<times> cmatrix) \<Rightarrow> cmatrix \<Rightarrow> bool \<Rightarrow>
   error + (real list \<times> cmatrix option)" where
  "sol_ham eigvalsh eigh ham eig_vectors =
     (if \<not> is_mat (length ham) ham then Inl ValueError
      else bind_err (np_max (herm_dev ham)) (\<lambda>mx.
        if cgt mx (1 / 10 ^ 9) then Inl (Exception msg_not_hermitian)
        else if \<not> eig_vectors then nicefy_eig (eigvalsh ham) None
        else nicefy_eig (fst (eigh ham)) (Some (snd (eigh ham)))))"

subsection \<open>The uniform mesh: \<open>k_uniform_mesh\<close>\<close>

text \<open>Python 3's \<open>round\<close> of a float: to the nearest integer, a tie to the even one.\<close>

definition py_round :: "real \<Rightarrow> int" where
  "py_round x =
     (let f = \<lfloor>x\<rfloor>; d = x - of_int f in
      if d < 1 / 2 then f else if 1 / 2 < d then f + 1 else if even f then f else f + 1)"

text \<open>
  An n-dimensional array is its shape and its item at every index.  \<open>ravel\<close> is the
  position of an index in the row-major order of a shape and \<open>unravel\<close> the index at a
  position; \<open>np_reshape\<close> keeps the row-major order of the items, \<open>np_transpose\<close> permutes
  the axes.
\<close>

record 'a ndarray =
  nd_shape :: "nat list"
  nd_item :: "nat list \<Rightarrow> 'a"

fun ravel :: "nat list \<Rightarrow> nat list \<Rightarrow> nat" where
  "ravel (n # s) (i # idx) = i * prod_list s + ravel s idx"
| "ravel s idx = 0"

fun unravel :: "nat list \<Rightarrow> nat \<Rightarrow> nat list" where
  "unravel [] p = []"
| "unravel (n # s) p = (p div prod_list s) # unravel s (p mod prod_list s)"

definition np_reshape :: "nat list \<Rightarrow> 'a ndarray \<Rightarrow> error + 'a ndarray" where
  "np_reshape new a =
     (if prod_list new \<noteq> prod_list (nd_shape a) then Inl ValueError
      else Inr \<lparr> nd_shape = new,
                 nd_item = (\<lambda>idx. nd_item a (unravel (nd_shape a) (ravel new idx))) \<rparr>)"

definition axis_pos :: "nat \<Rightarrow> nat list \<Rightarrow> nat" where
  "axis_pos b axes = length (takeWhile (\<lambda>x. x \<noteq> b) axes)"

definition np_transpose :: "nat list \<Rightarrow> 'a ndarray \<Rightarrow> 'a ndarray" where
  "np_transpose axes a =
     \<lparr> nd_shape = map (nth (nd_shape a)) axes,
       nd_item = (\<lambda>idx. nd_item a (map (\<lambda>b. idx ! axis_pos b axes) [0..<length axes])) \<rparr>"

text \<open>\<open>np.mgrid[0:n1,0:n2,0:n3]\<close>: the item at \<open>[d,i1,i2,i3]\<close> is the \<open>d\<close>-th of \<open>i1,i2,i3\<close>.\<close>

definition np_mgrid3 :: "nat \<Rightarrow> nat \<Rightarrow> nat \<Rightarrow> nat ndarray" where
  "np_mgrid3 n1 n2 n3 =
     \<lparr> nd_shape = [3, n1, n2, n3], nd_item = (\<lambda>idx. idx ! Suc (idx ! 0)) \<rparr>"

text \<open>
  \<open>np.tile(a, reps)\<close> for a one-dimensional \<open>a\<close> and at least one repetition count: the
  last axis holds \<open>a\<close> over and over, the other axes have the lengths of \<open>reps\<close>.
\<close>

definition np_tile :: "'a list \<Rightarrow> nat list \<Rightarrow> 'a ndarray" where
  "np_tile a reps =
     \<lparr> nd_shape = butlast reps @ [last reps * length a],
       nd_item = (\<lambda>idx. a ! (last idx mod length a)) \<rparr>"

definition nd_div :: "nat ndarray \<Rightarrow> real ndarray \<Rightarrow> error + real ndarray" where
  "nd_div a b =
     (if nd_shape a \<noteq> nd_shape b then Inl ValueError
      else Inr \<lparr> nd_shape = nd_shape a,
                 nd_item = (\<lambda>idx. real (nd_item a idx) / nd_item b idx) \<rparr>)"

definition to_rows :: "'a ndarray \<Rightarrow> 'a list list" where
  "to_rows a =
     map (\<lambda>r. map (\<lambda>c. nd_item a [r, c]) [0..<nd_shape a ! 1]) [0..<nd_shape a ! 0]"

text \<open>
  \<open>k_uniform_mesh\<close>, along its branch for three periodic directions; the branches for one
  and two are dead, since \<open>dim_k\<close> is 3.  The sizes are rounded first, as the source does
  with \<open>map(round, mesh_size)\<close>.
\<close>

definition k_uniform_mesh :: "real list \<Rightarrow> error + real list list" where
  "k_uniform_mesh mesh_size =
     (let use_mesh = map py_round mesh_size in
      if length use_mesh \<noteq> dim_k then Inl (Exception msg_mesh_size)
      else if fold min (tl use_mesh) (hd use_mesh) \<le> 0 then Inl (Exception msg_mesh_positive)
      else
        (let n = map nat use_mesh;
             k_vec = np_mgrid3 (n ! 0) (n ! 1) (n ! 2);
             norm = np_tile (map real_of_int use_mesh) n
         in bind_err (np_reshape (n @ [3]) norm) (\<lambda>norm1.
            bind_err (nd_div k_vec (np_transpose [3, 0, 1, 2] norm1)) (\<lambda>k_vec1.
            bind_err (np_reshape [n ! 0 * n ! 1 * n ! 2, 3] (np_transpose [1, 2, 3, 0] k_vec1))
              (\<lambda>k_vec2. Inr (to_rows k_vec2))))))"

subsection \<open>The interpolated path: \<open>k_path\<close>\<close>

datatype kpts = Full | Fullc | Half | Nodes "real list list"

definition k_list_of :: "kpts \<Rightarrow> real list list" where
  "k_list_of kpts =
     (case kpts of
        Full \<Rightarrow> [[0], [1 / 2], [1]]
      | Fullc \<Rightarrow> [[- (1 / 2)], [0], [1 / 2]]
      | Half \<Rightarrow> [[0], [1 / 2]]
      | Nodes ns \<Rightarrow> ns)"

text \<open>\<open>np.dot(lat, lat.T)\<close> and \<open>np.linalg.inv\<close> of a 3 by 3 array, in exact arithmetic.\<close>

definition gram :: "real list list \<Rightarrow> real list list" where
  "gram l = map (\<lambda>a. map (\<lambda>b. dot_sum a b) l) l"

definition inv3 :: "real list list \<Rightarrow> error + real list list" where
  "inv3 a =
     (let d = det3 a in
      if d = 0 then Inl LinAlgError
      else Inr
        [[(a ! 1 ! 1 * a ! 2 ! 2 - a ! 1 ! 2 * a ! 2 ! 1) / d,
          (a ! 0 ! 2 * a ! 2 ! 1 - a ! 0 ! 1 * a ! 2 ! 2) / d,
          (a ! 0 ! 1 * a ! 1 ! 2 - a ! 0 ! 2 * a ! 1 ! 1) / d],
         [(a ! 1 ! 2 * a ! 2 ! 0 - a ! 1 ! 0 * a ! 2 ! 2) / d,
          (a ! 0 ! 0 * a ! 2 ! 2 - a ! 0 ! 2 * a ! 2 ! 0) / d,
          (a ! 0 ! 2 * a ! 1 ! 0 - a ! 0 ! 0 * a ! 1 ! 2) / d],
         [(a ! 1 ! 0 * a ! 2 ! 1 - a ! 1 ! 1 * a ! 2 ! 0) / d,
          (a ! 0 ! 1 * a ! 2 ! 0 - a ! 0 ! 0 * a ! 2 ! 1) / d,
          (a ! 0 ! 0 * a ! 1 ! 1 - a ! 0 ! 1 * a ! 1 ! 0) / d]])"

definition mat_vec :: "real list list \<Rightarrow> real list \<Rightarrow> real list" where
  "mat_vec a v = map (\<lambda>r. dot_sum r v) a"

text \<open>
  The accumulated distances of the nodes after the first one.  \<open>np.sqrt\<close> of a negative
  number is \<open>nan\<close>.
\<close>

fun k_node_loop :: "real list list \<Rightarrow> real list \<Rightarrow> real \<Rightarrow> real list list \<Rightarrow> error + real list" where
  "k_node_loop k_metric prev acc [] = Inr []"
| "k_node_loop k_metric prev acc (k # ks) =
     (let dk = map2 (-) k prev;
          q = dot_sum dk (mat_vec k_metric dk)
      in if q < 0 then Inl NonFinite
         else bind_err (k_node_loop k_metric k (acc + sqrt q) ks) (\<lambda>r. Inr ((acc + sqrt q) # r)))"

definition k_node_of :: "real list list \<Rightarrow> real list list \<Rightarrow> error + real list" where
  "k_node_of k_metric k_list =
     bind_err (k_node_loop k_metric (hd k_list) 0 (tl k_list)) (\<lambda>r. Inr (0 # r))"

text \<open>
  The index of an interior node: \<open>int(round(k_node[n]/k_node[-1]*(nk-1)))\<close>.  The quotient
  is a numpy division: by zero it is \<open>nan\<close> (or \<open>inf\<close>), which \<open>round\<close> cannot convert.
\<close>

definition frac_index :: "real list \<Rightarrow> int \<Rightarrow> nat \<Rightarrow> error + int" where
  "frac_index k_node nk n =
     (if last k_node = 0
      then (if k_node ! n = 0 \<or> nk - 1 = 0 then Inl ValueError else Inl OverflowError)
      else Inr (py_round (k_node ! n / last k_node * of_int (nk - 1))))"

fun map_err :: "('a \<Rightarrow> error + 'b) \<Rightarrow> 'a list \<Rightarrow> error + 'b list" where
  "map_err f [] = Inr []"
| "map_err f (x # xs) =
     bind_err (f x) (\<lambda>y. bind_err (map_err f xs) (\<lambda>ys. Inr (y # ys)))"

definition node_index_of :: "real list \<Rightarrow> int \<Rightarrow> error + int list" where
  "node_index_of k_node nk =
     bind_err (map_err (frac_index k_node nk) [1..<length k_node - 1])
       (\<lambda>mid. Inr ([0] @ mid @ [nk - 1]))"

text \<open>
  The body of the inner loop over \<open>j\<close>.  The quotient \<open>float(j-n_i)/float(n_f-n_i)\<close> is a
  division of Python floats: by zero it raises.
\<close>

definition seg_step ::
  "int \<Rightarrow> int \<Rightarrow> real \<Rightarrow> real \<Rightarrow> real list \<Rightarrow> real list \<Rightarrow> real list \<times> real list list \<Rightarrow> int \<Rightarrow>
   error + (real list \<times> real list list)" where
  "seg_step n_i n_f kd_i kd_f k_i k_f st j =
     (if n_f - n_i = 0 then Inl ZeroDivisionError
      else
        (let frac = of_int (j - n_i) / of_int (n_f - n_i) in
         bind_err (py_index (length (fst st)) j) (\<lambda>jd.
         bind_err (py_index (length (snd st)) j) (\<lambda>jv.
           Inr ((fst st)[jd := kd_i + frac * (kd_f - kd_i)],
                (snd st)[jv := map2 (\<lambda>a b. a + frac * (b - a)) k_i k_f])))))"

definition segment ::
  "int list \<Rightarrow> real list \<Rightarrow> real list list \<Rightarrow> real list \<times> real list list \<Rightarrow> nat \<Rightarrow>
   error + (real list \<times> real list list)" where
  "segment node_index k_node k_list st n =
     (let n_i = node_index ! (n - 1);
          n_f = node_index ! n;
          kd_i = k_node ! (n - 1);
          kd_f = k_node ! n;
          k_i = k_list ! (n - 1);
          k_f = k_list ! n
      in fold_err (seg_step n_i n_f kd_i kd_f k_i k_f) [n_i..n_f] st)"

text \<open>
  \<open>k_path\<close> returns \<open>(k_vec, k_dist, k_node)\<close>.  The printed report does not touch them and
  is left out.  \<open>np.array\<close> of a ragged node list raises \<open>ValueError\<close>; the array of an empty
  list has one axis only, so that reading \<open>k_list.shape[1]\<close> raises \<open>IndexError\<close>.  The
  branch for a one-dimensional model is dead, since \<open>dim_k\<close> is 3.
\<close>

definition k_path :: "tb_model \<Rightarrow> kpts \<Rightarrow> int \<Rightarrow> error + (real list list \<times> real list \<times> real list)" where
  "k_path m kpts nk =
     (let k_list = k_list_of kpts in
      if ragged k_list then Inl ValueError
      else if k_list = [] then Inl IndexError
      else if length (hd k_list) \<noteq> dim_k then Inl (Exception msg_k_dims)
      else if nk < int (length k_list) then Inl (Exception msg_more_points)
      else
        bind_err (inv3 (gram (lat m))) (\<lambda>k_metric.
        bind_err (k_node_of k_metric k_list) (\<lambda>k_node.
        bind_err (node_index_of k_node nk) (\<lambda>node_index.
        bind_err
          (fold_err (segment node_index k_node k_list) [1..<length k_list]
             (replicate (nat nk) 0, (replicate (nat nk) (replicate dim_k 0))[0 := hd k_list]))
          (\<lambda>st. Inr (snd st, fst st, k_node))))))"

section \<open>Specification-side notions\<close>

subsection \<open>The Bloch sum\<close>

text \<open>
  The displacement \<open>orb[j] - orb[i] + R\<close>, the summand \<open>amp * exp(2 pi i k.d) / deg\<close> of one
  matrix element, and the sum of the summands of all elements \<open>(a, b, amp)\<close> of all shells.
\<close>

definition rvec :: "tb_model \<Rightarrow> nat \<Rightarrow> nat \<Rightarrow> int \<times> int \<times> int \<Rightarrow> real list" where
  "rvec m i j vecR = map2 (+) (map2 (-) (orb m ! j) (orb m ! i)) (vecR_list vecR)"

definition hop_term ::
  "tb_model \<Rightarrow> real list \<Rightarrow> int \<Rightarrow> int \<times> int \<times> int \<Rightarrow> nat \<Rightarrow> nat \<Rightarrow> complex \<Rightarrow> complex" where
  "hop_term m k deg vecR i j amp =
     amp * exp (2 * of_real pi * \<i> * of_real (dot_sum k (rvec m i j vecR))) / of_int deg"

definition elem_sum ::
  "tb_model \<Rightarrow> real list \<Rightarrow> nat \<Rightarrow> nat \<Rightarrow> int \<Rightarrow> int \<times> int \<times> int \<Rightarrow>
   (int \<times> int \<times> complex) list \<Rightarrow> complex" where
  "elem_sum m k a b deg vecR ham1 =
     (\<Sum>(i, j, amp) \<leftarrow> ham1. if i = int a \<and> j = int b then hop_term m k deg vecR a b amp else 0)"

definition bloch_sum :: "tb_model \<Rightarrow> real list \<Rightarrow> nat \<Rightarrow> nat \<Rightarrow> complex" where
  "bloch_sum m k a b = (\<Sum>(deg, vecR, ham1) \<leftarrow> shells m. elem_sum m k a b deg vecR ham1)"

text \<open>No element of the table contributes to the entry \<open>(a, b)\<close>.\<close>

definition no_element :: "tb_model \<Rightarrow> nat \<Rightarrow> nat \<Rightarrow> bool" where
  "no_element m a b =
     list_all (\<lambda>sh. list_all (\<lambda>e. \<not> (fst e = int a \<and> fst (snd e) = int b)) (snd (snd sh)))
       (shells m)"

text \<open>
  The data model of the hopping table: orbital indices are 0-based and below the number of
  orbitals, a degeneracy weight is not zero; the orbital array is as the constructor leaves
  it.
\<close>

definition valid_elem :: "nat \<Rightarrow> int \<times> int \<times> complex \<Rightarrow> bool" where
  "valid_elem n e = (0 \<le> fst e \<and> fst e < int n \<and> 0 \<le> fst (snd e) \<and> fst (snd e) < int n)"

definition valid_shell ::
  "nat \<Rightarrow> int \<times> (int \<times> int \<times> int) \<times> (int \<times> int \<times> complex) list \<Rightarrow> bool" where
  "valid_shell n sh = (fst sh \<noteq> 0 \<and> list_all (valid_elem n) (snd (snd sh)))"

definition wf_model :: "tb_model \<Rightarrow> bool" where
  "wf_model m =
     (norb m = length (orb m) \<and> list_all (\<lambda>r. length r = 3) (orb m) \<and>
      list_all (valid_shell (norb m)) (shells m))"

subsection \<open>Example models\<close>

definition unit_lat :: "real list list" where
  "unit_lat = [[1, 0, 0], [0, 1, 0], [0, 0, 1]]"

text \<open>The one-orbital chain: a hop \<open>t\<close> along the first lattice vector and its partner.\<close>

definition chain_model :: "complex \<Rightarrow> tb_model" where
  "chain_model t =
     \<lparr> lat = unit_lat, orb = [[0, 0, 0]], norb = 1, nspin = 1,
       deg_ws = [1, 1], Rvec_list = [(1, 0, 0), (- 1, 0, 0)],
       Hmat_list = [[(0, 0, t)], [(0, 0, cnj t)]] \<rparr>"

text \<open>The chain with the hop \<open>t = 1\<close> alone: its partner is missing from the table.\<close>

definition half_chain_model :: tb_model where
  "half_chain_model =
     \<lparr> lat = unit_lat, orb = [[0, 0, 0]], norb = 1, nspin = 1,
       deg_ws = [1], Rvec_list = [(1, 0, 0)], Hmat_list = [[(0, 0, 1)]] \<rparr>"

subsection \<open>Hermiticity and reconstruction\<close>

text \<open>
  The largest modulus of an entry of \<open>H - H* \<close>, and the matrix \<open>V diag(E) V* \<close> for an
  array \<open>V\<close> whose columns are the eigenvectors.
\<close>

definition max_abs_dev :: "cmatrix \<Rightarrow> real" where
  "max_abs_dev ham = fold max (map cmod (herm_dev ham)) 0"

definition recon_entry :: "cmatrix \<Rightarrow> real list \<Rightarrow> nat \<Rightarrow> nat \<Rightarrow> complex" where
  "recon_entry V E a b = (\<Sum>k\<leftarrow>[0..<length E]. V ! a ! k * of_real (E ! k) * cnj (V ! b ! k))"

definition reconstruct :: "cmatrix \<Rightarrow> real list \<Rightarrow> cmatrix" where
  "reconstruct V E = map (\<lambda>a. map (\<lambda>b. recon_entry V E a b) [0..<length V]) [0..<length V]"

subsection \<open>Reciprocal shifts\<close>

text \<open>
  \<open>k_shift k G\<close> is \<open>k + G\<close> for an integer vector \<open>G\<close>.  \<open>gauge_integral m G\<close>: for every matrix
  element \<open>(i, j, amp)\<close> of the table, \<open>G.(orb[j] - orb[i])\<close> is an integer.  The dimer has two
  orbitals half a lattice vector apart.
\<close>

definition is_integer :: "real \<Rightarrow> bool" where
  "is_integer x = (of_int \<lfloor>x\<rfloor> = x)"

definition k_shift :: "real list \<Rightarrow> int \<times> int \<times> int \<Rightarrow> real list" where
  "k_shift k G = map2 (+) k (vecR_list G)"

definition gauge_integral :: "tb_model \<Rightarrow> int \<times> int \<times> int \<Rightarrow> bool" where
  "gauge_integral m G =
     list_all (\<lambda>sh. list_all (\<lambda>e.
        is_integer (dot_sum (vecR_list G)
          (map2 (-) (orb m ! nat (fst (snd e))) (orb m ! nat (fst e))))) (snd (snd sh)))
       (shells m)"

definition dimer_model :: tb_model where
  "dimer_model =
     \<lparr> lat = unit_lat, orb = [[0, 0, 0], [1 / 2, 0, 0]], norb = 2, nspin = 1,
       deg_ws = [1], Rvec_list = [(0, 0, 0)], Hmat_list = [[(0, 1, 1), (1, 0, 1)]] \<rparr>"

subsection \<open>Partner elements\<close>

text \<open>
  The table as a list of entries \<open>(deg, R, i, j, amp)\<close>, one per matrix element; the partner
  of an entry is \<open>(deg, -R, j, i, conj amp)\<close>.  \<open>has_partners\<close>: the partner of every entry
  occurs in the table.  \<open>balanced\<close>: taking partners permutes the entries, so every entry
  occurs as often as its partner.  \<open>dup_model\<close> lists one element twice and its partner once.
\<close>

type_synonym entry = "int \<times> (int \<times> int \<times> int) \<times> int \<times> int \<times> complex"

definition entries :: "tb_model \<Rightarrow> entry list" where
  "entries m =
     concat (map (\<lambda>sh. map (\<lambda>e. (fst sh, fst (snd sh), fst e, fst (snd e), snd (snd e)))
                           (snd (snd sh))) (shells m))"

definition partner :: "entry \<Rightarrow> entry" where
  "partner x =
     (case x of (deg, (r1, r2, r3), i, j, amp) \<Rightarrow> (deg, (- r1, - r2, - r3), j, i, cnj amp))"

definition has_partners :: "tb_model \<Rightarrow> bool" where
  "has_partners m = list_all (\<lambda>x. partner x \<in> set (entries m)) (entries m)"

definition balanced :: "tb_model \<Rightarrow> bool" where
  "balanced m = (mset (map partner (entries m)) = mset (entries m))"

definition entry_term :: "tb_model \<Rightarrow> real list \<Rightarrow> nat \<Rightarrow> nat \<Rightarrow> entry \<Rightarrow> complex" where
  "entry_term m k a b x =
     (case x of (deg, vecR, i, j, amp) \<Rightarrow>
        if i = int a \<and> j = int b then hop_term m k deg vecR a b amp else 0)"

definition dup_model :: tb_model where
  "dup_model =
     \<lparr> lat = unit_lat, orb = [[0, 0, 0], [0, 0, 0]], norb = 2, nspin = 1,
       deg_ws = [1, 1], Rvec_list = [(1, 0, 0), (- 1, 0, 0)],
       Hmat_list = [[(0, 1, 1), (0, 1, 1)], [(1, 0, 1)]] \<rparr>"

subsection \<open>Mesh points\<close>

text \<open>
  The point of the mesh at position \<open>p\<close> of the row-major order of the grid
  \<open>n1 x n2 x n3\<close>: coordinate \<open>c\<close> is the \<open>c\<close>-th grid index of \<open>p\<close> over the \<open>c\<close>-th size.
\<close>

definition mesh_point :: "nat \<Rightarrow> nat \<Rightarrow> nat \<Rightarrow> nat \<Rightarrow> real list" where
  "mesh_point n1 n2 n3 p =
     map (\<lambda>c. real (unravel [n1, n2, n3] p ! c) / real ([n1, n2, n3] ! c)) [0..<3]"

section \<open>Properties\<close>

subsection \<open>Arrays\<close>

lemma is_mat_zeros: "is_mat n (zeros n)"
  by (simp add: is_mat_def zeros_def list_all_iff)

lemma zeros_nth: "a < n \<Longrightarrow> b < n \<Longrightarrow> zeros n ! a ! b = 0"
  by (simp add: zeros_def)

lemma is_mat_add_at: "is_mat n H \<Longrightarrow> is_mat n (mat_add_at i j v H)"
  unfolding is_mat_def mat_add_at_def list_all_length
  by (cases "i < length H") (auto simp: nth_list_update)

lemma mat_add_at_nth:
  "is_mat n H \<Longrightarrow> i < n \<Longrightarrow> j < n \<Longrightarrow> a < n \<Longrightarrow> b < n \<Longrightarrow>
   mat_add_at i j v H ! a ! b = (if a = i \<and> b = j then H ! a ! b + v else H ! a ! b)"
  unfolding is_mat_def mat_add_at_def list_all_length by (auto simp: nth_list_update)

lemma is_mat_eqI:
  assumes "is_mat n H" and "is_mat n H'"
    and "\<And>a b. a < n \<Longrightarrow> b < n \<Longrightarrow> H ! a ! b = H' ! a ! b"
  shows "H = H'"
proof (rule nth_equalityI)
  show "length H = length H'" using assms(1,2) by (simp add: is_mat_def)
next
  fix a assume a: "a < length H"
  then have an: "a < n" using assms(1) by (simp add: is_mat_def)
  have la: "length (H ! a) = n" "length (H' ! a) = n"
    using assms(1,2) an by (simp_all add: is_mat_def list_all_length)
  show "H ! a = H' ! a"
    by (rule nth_equalityI) (use la an assms(3) in auto)
qed

lemma length3: "length xs = 3 \<Longrightarrow> \<exists>x y z. xs = [x, y, z]"
  by (cases xs; simp; cases "tl xs"; simp; cases "tl (tl xs)"; auto)

lemma py_index_valid: "0 \<le> i \<Longrightarrow> i < int n \<Longrightarrow> py_index n i = Inr (nat i)"
  by (simp add: py_index_def)

subsection \<open>The Hamiltonian is the Bloch sum\<close>

lemma ham_step_valid:
  assumes "norb m = length (orb m)" "list_all (\<lambda>r. length r = 3) (orb m)" "length k = 3"
    and "valid_elem (norb m) (i, j, amp)"
  shows "ham_step m k deg vecR (H, nf) (i, j, amp) =
           Inr (mat_add_at (nat i) (nat j) (hop_term m k deg vecR (nat i) (nat j) amp) H,
                nf \<or> deg = 0)"
proof -
  from assms have i: "0 \<le> i" "i < int (length (orb m))" and j: "0 \<le> j" "j < int (length (orb m))"
    by (simp_all add: valid_elem_def)
  then have li: "length (orb m ! nat i) = 3" and lj: "length (orb m ! nat j) = 3"
    using assms(2) by (simp_all add: list_all_length)
  obtain x1 x2 x3 where oi: "orb m ! nat i = [x1, x2, x3]" using length3[OF li] by blast
  obtain y1 y2 y3 where oj: "orb m ! nat j = [y1, y2, y3]" using length3[OF lj] by blast
  obtain k1 k2 k3 where k: "k = [k1, k2, k3]" using length3[OF assms(3)] by blast
  obtain r1 r2 r3 where r: "vecR = (r1, r2, r3)" by (cases vecR) auto
  show ?thesis
    using i j
    by (simp add: ham_step_def bind_err_def py_index_valid assms(1) oi oj k r vadd_def dot_def
        vecR_list_def hop_term_def rvec_def dot_sum_def Let_def algebra_simps)
qed

lemma fold_elems:
  assumes "norb m = length (orb m)" "list_all (\<lambda>r. length r = 3) (orb m)" "length k = 3"
    and "deg \<noteq> 0"
  shows "list_all (valid_elem (norb m)) es \<Longrightarrow> is_mat (norb m) H \<Longrightarrow>
         \<exists>H'. fold_err (ham_step m k deg vecR) es (H, nf) = Inr (H', nf) \<and> is_mat (norb m) H' \<and>
              (\<forall>a<norb m. \<forall>b<norb m. H' ! a ! b = H ! a ! b + elem_sum m k a b deg vecR es)"
proof (induction es arbitrary: H)
  case Nil
  then show ?case by (simp add: elem_sum_def)
next
  case (Cons e es)
  obtain i j amp where e: "e = (i, j, amp)" by (cases e) auto
  from Cons.prems e have ve: "valid_elem (norb m) (i, j, amp)"
    and ves: "list_all (valid_elem (norb m)) es"
    by simp_all
  let ?H1 = "mat_add_at (nat i) (nat j) (hop_term m k deg vecR (nat i) (nat j) amp) H"
  have step: "ham_step m k deg vecR (H, nf) e = Inr (?H1, nf)"
    using ham_step_valid[OF assms(1-3) ve] assms(4) e by simp
  have m1: "is_mat (norb m) ?H1" using Cons.prems(2) by (rule is_mat_add_at)
  from Cons.IH[OF ves m1] obtain H' where
    H': "fold_err (ham_step m k deg vecR) es (?H1, nf) = Inr (H', nf)" "is_mat (norb m) H'"
    "\<forall>a<norb m. \<forall>b<norb m. H' ! a ! b = ?H1 ! a ! b + elem_sum m k a b deg vecR es"
    by blast
  have ij: "nat i < norb m" "nat j < norb m" using ve by (auto simp: valid_elem_def)
  have "\<forall>a<norb m. \<forall>b<norb m. H' ! a ! b = H ! a ! b + elem_sum m k a b deg vecR (e # es)"
  proof (intro allI impI)
    fix a b assume ab: "a < norb m" "b < norb m"
    have "?H1 ! a ! b =
            H ! a ! b + (if int a = i \<and> int b = j then hop_term m k deg vecR a b amp else 0)"
      using mat_add_at_nth[OF Cons.prems(2) ij ab] ve by (auto simp: valid_elem_def)
    then show "H' ! a ! b = H ! a ! b + elem_sum m k a b deg vecR (e # es)"
      using H'(3) ab by (auto simp: elem_sum_def e)
  qed
  then show ?case using step H' by simp
qed

lemma fold_shells:
  assumes "norb m = length (orb m)" "list_all (\<lambda>r. length r = 3) (orb m)" "length k = 3"
  shows "list_all (valid_shell (norb m)) shs \<Longrightarrow> is_mat (norb m) H \<Longrightarrow>
         \<exists>H'. fold_err (shell_step m k) shs (H, nf) = Inr (H', nf) \<and> is_mat (norb m) H' \<and>
              (\<forall>a<norb m. \<forall>b<norb m. H' ! a ! b = H ! a ! b +
                  (\<Sum>(deg, vecR, ham1) \<leftarrow> shs. elem_sum m k a b deg vecR ham1))"
proof (induction shs arbitrary: H)
  case Nil
  then show ?case by simp
next
  case (Cons sh shs)
  obtain deg vecR ham1 where sh: "sh = (deg, vecR, ham1)" by (cases sh) auto
  from Cons.prems have vsh: "valid_shell (norb m) sh"
    and vs: "list_all (valid_shell (norb m)) shs"
    by simp_all
  from vsh sh have d: "deg \<noteq> 0" and v: "list_all (valid_elem (norb m)) ham1"
    by (simp_all add: valid_shell_def)
  from fold_elems[OF assms d v Cons.prems(2), of vecR nf] obtain H1 where
    H1: "fold_err (ham_step m k deg vecR) ham1 (H, nf) = Inr (H1, nf)" "is_mat (norb m) H1"
    "\<forall>a<norb m. \<forall>b<norb m. H1 ! a ! b = H ! a ! b + elem_sum m k a b deg vecR ham1"
    by blast
  from Cons.IH[OF vs H1(2)] obtain H' where
    H': "fold_err (shell_step m k) shs (H1, nf) = Inr (H', nf)" "is_mat (norb m) H'"
    "\<forall>a<norb m. \<forall>b<norb m. H' ! a ! b = H1 ! a ! b +
        (\<Sum>(deg, vecR, ham1) \<leftarrow> shs. elem_sum m k a b deg vecR ham1)"
    by blast
  have "fold_err (shell_step m k) (sh # shs) (H, nf) = Inr (H', nf)"
    using H1(1) H'(1) by (simp add: shell_step_def sh)
  moreover have "\<forall>a<norb m. \<forall>b<norb m. H' ! a ! b = H ! a ! b +
                  (\<Sum>(deg, vecR, ham1) \<leftarrow> sh # shs. elem_sum m k a b deg vecR ham1)"
    using H1(3) H'(3) by (simp add: sh)
  ultimately show ?case using H'(2) by blast
qed

lemma gen_ham_entries:
  assumes "wf_model m" and "length k = 3"
  shows "\<exists>H. gen_ham m (Some k) = Inr H \<and> is_mat (norb m) H \<and>
             (\<forall>a<norb m. \<forall>b<norb m. H ! a ! b = bloch_sum m k a b)"
proof -
  from assms(1) have w: "norb m = length (orb m)" "list_all (\<lambda>r. length r = 3) (orb m)"
    "list_all (valid_shell (norb m)) (shells m)"
    unfolding wf_model_def by blast+
  from fold_shells[OF w(1,2) assms(2) w(3) is_mat_zeros, of False] obtain H' where
    H': "fold_err (shell_step m k) (shells m) (zeros (norb m), False) = Inr (H', False)"
    "is_mat (norb m) H'"
    "\<forall>a<norb m. \<forall>b<norb m. H' ! a ! b = zeros (norb m) ! a ! b +
        (\<Sum>(deg, vecR, ham1) \<leftarrow> shells m. elem_sum m k a b deg vecR ham1)"
    by blast
  have "gen_ham m (Some k) = Inr H'" using H'(1) by (simp add: gen_ham_def)
  moreover have "\<forall>a<norb m. \<forall>b<norb m. H' ! a ! b = bloch_sum m k a b"
    using H'(3) by (simp add: zeros_nth bloch_sum_def)
  ultimately show ?thesis using H'(2) by blast
qed

lemma wf_chain_model: "wf_model (chain_model t)"
  by (simp add: wf_model_def chain_model_def shells_def valid_shell_def valid_elem_def)

lemma wf_dimer_model: "wf_model dimer_model"
  by (simp add: wf_model_def dimer_model_def shells_def valid_shell_def valid_elem_def)

lemma sum_list_all_zero: "(\<And>x. x \<in> set xs \<Longrightarrow> f x = 0) \<Longrightarrow> sum_list (map f xs) = (0::complex)"
  by (induction xs) simp_all

lemma bloch_sum_no_element:
  assumes "no_element m a b"
  shows "bloch_sum m k a b = 0"
  unfolding bloch_sum_def
proof (rule sum_list_all_zero)
  fix sh assume sh: "sh \<in> set (shells m)"
  obtain deg vecR ham1 where s: "sh = (deg, vecR, ham1)" by (cases sh) auto
  have "elem_sum m k a b deg vecR ham1 = 0"
    unfolding elem_sum_def
  proof (rule sum_list_all_zero)
    fix e assume e: "e \<in> set ham1"
    obtain i j amp where eq: "e = (i, j, amp)" by (cases e) auto
    from assms sh e s have "\<not> (fst e = int a \<and> fst (snd e) = int b)"
      by (auto simp: no_element_def list_all_iff)
    then show "(case e of (i, j, amp) \<Rightarrow>
                  if i = int a \<and> j = int b then hop_term m k deg vecR a b amp else 0) = 0"
      by (auto simp: eq)
  qed
  then show "(case sh of (deg, vecR, ham1) \<Rightarrow> elem_sum m k a b deg vecR ham1) = 0"
    by (simp add: s)
qed

text \<open>
  C1.  For a model whose hopping table respects the data model and a k-vector of length 3,
  \<open>_gen_ham\<close> returns an N by N matrix whose entry \<open>(a, b)\<close> is the sum, over all shells and
  all elements \<open>(a, b, amp)\<close> of the shell, of \<open>amp * exp(2 pi i k.(orb[b] - orb[a] + R)) / deg\<close>;
  an entry to which no element contributes is 0.
\<close>

theorem gen_ham_bloch_sum:
  assumes "wf_model m" and "length k = 3"
  shows "\<exists>H. gen_ham m (Some k) = Inr H \<and> is_mat (norb m) H \<and>
             (\<forall>a<norb m. \<forall>b<norb m.
                H ! a ! b = bloch_sum m k a b \<and> (no_element m a b \<longrightarrow> H ! a ! b = 0))"
proof -
  from gen_ham_entries[OF assms] obtain H where
    H: "gen_ham m (Some k) = Inr H" "is_mat (norb m) H"
    "\<forall>a<norb m. \<forall>b<norb m. H ! a ! b = bloch_sum m k a b" by blast
  have "\<forall>a<norb m. \<forall>b<norb m.
          H ! a ! b = bloch_sum m k a b \<and> (no_element m a b \<longrightarrow> H ! a ! b = 0)"
    using H(3) bloch_sum_no_element by simp
  with H(1,2) show ?thesis by blast
qed

theorem gen_ham_bloch_sum_witness:
  "wf_model dimer_model \<and> length [1 / 3, 0, 0 :: real] = 3 \<and> no_element dimer_model 0 0 \<and>
   (\<exists>H. gen_ham dimer_model (Some [1 / 3, 0, 0]) = Inr H \<and> is_mat 2 H \<and>
        H ! 0 ! 1 = bloch_sum dimer_model [1 / 3, 0, 0] 0 1 \<and> H ! 0 ! 0 = 0)"
proof -
  have n: "norb dimer_model = 2" by (simp add: dimer_model_def)
  have ne: "no_element dimer_model 0 0"
    by (simp add: no_element_def dimer_model_def shells_def)
  from gen_ham_bloch_sum[OF wf_dimer_model, of "[1 / 3, 0, 0]"] obtain H where
    H: "gen_ham dimer_model (Some [1 / 3, 0, 0]) = Inr H" "is_mat 2 H"
    "\<forall>a<2. \<forall>b<2. H ! a ! b = bloch_sum dimer_model [1 / 3, 0, 0] a b \<and>
        (no_element dimer_model a b \<longrightarrow> H ! a ! b = 0)"
    unfolding n by auto
  have "H ! 0 ! 1 = bloch_sum dimer_model [1 / 3, 0, 0] 0 1" using H(3) by simp
  moreover have "H ! 0 ! 0 = 0" using H(3) ne by (metis pos2)
  ultimately show ?thesis using H(1,2) ne wf_dimer_model by auto
qed

subsection \<open>The one-orbital chain\<close>

lemma hop_phase: "exp (2 * of_real pi * \<i> * of_real x) = cis (2 * pi * x)"
  by (simp add: cis_conv_exp mult_ac)

lemma is_mat1: "is_mat (Suc 0) H \<Longrightarrow> H = [[H ! 0 ! 0]]"
proof -
  assume a: "is_mat (Suc 0) H"
  then obtain r where H: "H = [r]" by (cases H) (auto simp: is_mat_def)
  with a obtain x where "r = [x]" by (cases r) (auto simp: is_mat_def)
  with H show ?thesis by simp
qed

lemma hop_term_cis:
  "hop_term m k deg vecR i j amp = amp * cis (2 * pi * dot_sum k (rvec m i j vecR)) / of_int deg"
  by (simp add: hop_term_def hop_phase)

lemma chain_bloch_sum:
  "bloch_sum (chain_model t) [k, 0, 0] 0 0 = t * cis (2 * pi * k) + cnj (t * cis (2 * pi * k))"
  by (simp add: bloch_sum_def chain_model_def shells_def elem_sum_def hop_term_cis
      rvec_def vecR_list_def dot_sum_def cis_cnj)

lemma chain_ham:
  "gen_ham (chain_model t) (Some [k, 0, 0]) =
     Inr [[complex_of_real (2 * Re t * cos (2 * pi * k) - 2 * Im t * sin (2 * pi * k))]]"
proof -
  have n: "norb (chain_model t) = Suc 0" by (simp add: chain_model_def)
  from gen_ham_entries[OF wf_chain_model, of "[k, 0, 0]" t] obtain H where
    H: "gen_ham (chain_model t) (Some [k, 0, 0]) = Inr H" "is_mat (Suc 0) H"
    "H ! 0 ! 0 = bloch_sum (chain_model t) [k, 0, 0] 0 0"
    unfolding n by auto
  have "H ! 0 ! 0 = complex_of_real (2 * Re (t * cis (2 * pi * k)))"
    unfolding H(3) chain_bloch_sum by (rule complex_add_cnj)
  also have "\<dots> = complex_of_real (2 * Re t * cos (2 * pi * k) - 2 * Im t * sin (2 * pi * k))"
    by (simp add: algebra_simps)
  finally show ?thesis using is_mat1[OF H(2)] H(1) by simp
qed

lemma sol_ham_real1:
  "sol_ham eigvalsh eigh [[complex_of_real x]] False = nicefy_eig (eigvalsh [[complex_of_real x]]) None"
  by (simp add: sol_ham_def is_mat_def herm_dev_def np_max_def bind_err_def cgt_def)

lemma nicefy_eig_single: "nicefy_eig [complex_of_real x] None = Inr ([x], None)"
  by (simp add: nicefy_eig_def argsort_def)

text \<open>
  C5 (amended).  For the one-orbital chain, every complex \<open>t\<close> and every real \<open>k\<close>, the
  Hamiltonian at \<open>[k,0,0]\<close> is the 1 by 1 matrix with the real entry
  \<open>2 Re(t) cos(2 pi k) - 2 Im(t) sin(2 pi k)\<close>; this is \<open>2 Re(t) cos(2 pi k)\<close> when \<open>t\<close> is
  real.  At \<open>k = 0\<close> the entry is \<open>2 Re(t)\<close>, and \<open>_sol_ham\<close> returns it as the one eigenvalue
  when the eigenvalue routine returns the entry of that 1 by 1 real matrix.
\<close>

theorem chain_hamiltonian:
  assumes "eigvalsh [[complex_of_real (2 * Re t)]] = [complex_of_real (2 * Re t)]"
  shows "gen_ham (chain_model t) (Some [k, 0, 0]) =
           Inr [[complex_of_real (2 * Re t * cos (2 * pi * k) - 2 * Im t * sin (2 * pi * k))]] \<and>
         (Im t = 0 \<longrightarrow> gen_ham (chain_model t) (Some [k, 0, 0]) =
           Inr [[complex_of_real (2 * Re t * cos (2 * pi * k))]]) \<and>
         gen_ham (chain_model t) (Some [0, 0, 0]) = Inr [[complex_of_real (2 * Re t)]] \<and>
         sol_ham eigvalsh eigh [[complex_of_real (2 * Re t)]] False = Inr ([2 * Re t], None)"
proof (intro conjI impI)
  show "gen_ham (chain_model t) (Some [k, 0, 0]) =
          Inr [[complex_of_real (2 * Re t * cos (2 * pi * k) - 2 * Im t * sin (2 * pi * k))]]"
    by (rule chain_ham)
  show "gen_ham (chain_model t) (Some [k, 0, 0]) =
          Inr [[complex_of_real (2 * Re t * cos (2 * pi * k))]]" if "Im t = 0"
    using that by (simp add: chain_ham)
  show "gen_ham (chain_model t) (Some [0, 0, 0]) = Inr [[complex_of_real (2 * Re t)]]"
    using chain_ham[of t 0] by simp
  show "sol_ham eigvalsh eigh [[complex_of_real (2 * Re t)]] False = Inr ([2 * Re t], None)"
    by (simp only: sol_ham_real1 assms nicefy_eig_single)
qed

theorem chain_hamiltonian_witness:
  "(\<lambda>H. map hd H) [[complex_of_real (2 * Re 3)]] = [complex_of_real (2 * Re 3)] \<and>
   Im 3 = 0 \<and>
   gen_ham (chain_model 3) (Some [1 / 2, 0, 0]) = Inr [[- 6]] \<and>
   gen_ham (chain_model 3) (Some [0, 0, 0]) = Inr [[6]] \<and>
   sol_ham (\<lambda>H. map hd H) (\<lambda>H. (map hd H, H)) [[6]] False = Inr ([6], None)"
  using chain_hamiltonian[of "\<lambda>H. map hd H" 3 "1 / 2" "\<lambda>H. (map hd H, H)"]
  by simp

text \<open>
  C5 as stated fails for an amplitude that is not real: with \<open>t = i\<close> and \<open>k = 1/4\<close> the entry
  is \<open>-2\<close>, not \<open>2 Re(t) cos(2 pi k) = 0\<close>.
\<close>

theorem chain_complex_amplitude_counterexample:
  "gen_ham (chain_model \<i>) (Some [1 / 4, 0, 0]) = Inr [[- 2]] \<and>
   gen_ham (chain_model \<i>) (Some [1 / 4, 0, 0]) \<noteq>
     Inr [[complex_of_real (2 * Re \<i> * cos (2 * pi * (1 / 4)))]]"
  using chain_ham[of \<i> "1 / 4"] by simp

text \<open>The chain model is what the constructor returns for the chain's data.\<close>

lemma chain_model_init:
  "tb_model_init unit_lat [[0, 0, 0]] [1, 1] [(1, 0, 0), (- 1, 0, 0)]
     [[(0, 0, t)], [(0, 0, cnj t)]] 1 = Inr (chain_model t)"
  by (simp add: tb_model_init_def ragged_def unit_lat_def dim_r_def det3_def chain_model_def)

subsection \<open>Reciprocal periodicity\<close>

lemma cis_shift:
  assumes "is_integer x"
  shows "cis (2 * pi * (y + x)) = cis (2 * pi * y)"
proof -
  from assms obtain n :: int where x: "x = of_int n" by (auto simp: is_integer_def)
  have "cis (2 * pi * (y + x)) = cis (2 * pi * y + 2 * pi * of_int n)"
    by (simp add: x distrib_left)
  also have "\<dots> = cis (2 * pi * y) * cis (2 * pi * of_int n)"
    by (simp only: cis_mult)
  also have "cis (2 * pi * of_int n) = 1"
    by (rule cis_multiple_2pi) simp
  finally show ?thesis by simp
qed

lemma hop_term_shift:
  assumes "length (orb m ! a) = 3" "length (orb m ! b) = 3" "length k = 3"
    and "is_integer (dot_sum (vecR_list G) (map2 (-) (orb m ! b) (orb m ! a)))"
  shows "hop_term m (k_shift k G) deg vecR a b amp = hop_term m k deg vecR a b amp"
proof -
  obtain x1 x2 x3 where oa: "orb m ! a = [x1, x2, x3]" using length3[OF assms(1)] by blast
  obtain y1 y2 y3 where ob: "orb m ! b = [y1, y2, y3]" using length3[OF assms(2)] by blast
  obtain k1 k2 k3 where k: "k = [k1, k2, k3]" using length3[OF assms(3)] by blast
  obtain g1 g2 g3 where g: "G = (g1, g2, g3)" by (cases G) auto
  obtain r1 r2 r3 where r: "vecR = (r1, r2, r3)" by (cases vecR) auto
  let ?d = "dot_sum (vecR_list G) (map2 (-) (orb m ! b) (orb m ! a))"
  let ?n = "g1 * r1 + g2 * r2 + g3 * r3"
  have split: "dot_sum (k_shift k G) (rvec m a b vecR) =
          dot_sum k (rvec m a b vecR) + (?d + of_int ?n)"
    by (simp add: k_shift_def rvec_def dot_sum_def vecR_list_def oa ob k g r algebra_simps)
  have "is_integer (?d + of_int ?n)"
  proof -
    from assms(4) obtain z :: int where "?d = of_int z" by (auto simp: is_integer_def)
    then have "?d + of_int ?n = of_int (z + ?n)" by simp
    then show ?thesis unfolding is_integer_def by (metis floor_of_int)
  qed
  then show ?thesis
    unfolding hop_term_cis split by (simp only: cis_shift)
qed

lemma sum_list_map_cong: "(\<And>x. x \<in> set xs \<Longrightarrow> f x = g x) \<Longrightarrow> sum_list (map f xs) = sum_list (map g xs)"
  by (induction xs) auto

lemma bloch_sum_shift:
  assumes "wf_model m" "length k = 3" "gauge_integral m G" "a < norb m" "b < norb m"
  shows "bloch_sum m (k_shift k G) a b = bloch_sum m k a b"
proof -
  from assms(1) have w: "norb m = length (orb m)" "list_all (\<lambda>r. length r = 3) (orb m)"
    unfolding wf_model_def by blast+
  have la: "length (orb m ! a) = 3" and lb: "length (orb m ! b) = 3"
    using w assms(4,5) by (simp_all add: list_all_length)
  have "elem_sum m (k_shift k G) a b (fst sh) (fst (snd sh)) (snd (snd sh)) =
        elem_sum m k a b (fst sh) (fst (snd sh)) (snd (snd sh))" if sh: "sh \<in> set (shells m)" for sh
    unfolding elem_sum_def
  proof (rule sum_list_map_cong)
    fix e assume e: "e \<in> set (snd (snd sh))"
    obtain i j amp where eq: "e = (i, j, amp)" by (cases e) auto
    show "(case e of (i, j, amp) \<Rightarrow>
             if i = int a \<and> j = int b then hop_term m (k_shift k G) (fst sh) (fst (snd sh)) a b amp else 0) =
          (case e of (i, j, amp) \<Rightarrow>
             if i = int a \<and> j = int b then hop_term m k (fst sh) (fst (snd sh)) a b amp else 0)"
    proof (cases "i = int a \<and> j = int b")
      case True
      from assms(3) sh e have
        "is_integer (dot_sum (vecR_list G) (map2 (-) (orb m ! nat (fst (snd e))) (orb m ! nat (fst e))))"
        by (auto simp: gauge_integral_def list_all_iff)
      with True eq have "is_integer (dot_sum (vecR_list G) (map2 (-) (orb m ! b) (orb m ! a)))"
        by simp
      from hop_term_shift[OF la lb assms(2) this] show ?thesis by (simp add: eq)
    next
      case False
      then show ?thesis by (auto simp: eq)
    qed
  qed
  then show ?thesis
    unfolding bloch_sum_def by (intro sum_list_map_cong) (auto simp: case_prod_beta)
qed

text \<open>
  C3 (amended).  For a model that respects the data model, a k-vector of length 3 and an
  integer vector \<open>G\<close> such that \<open>G.(orb[j] - orb[i])\<close> is an integer for every matrix element
  \<open>(i, j, amp)\<close> of the table, the Hamiltonians at \<open>k + G\<close> and at \<open>k\<close> are equal.
\<close>

theorem gen_ham_reciprocal_shift:
  assumes "wf_model m" and "length k = 3" and "gauge_integral m G"
  shows "gen_ham m (Some (k_shift k G)) = gen_ham m (Some k)"
proof -
  obtain g1 g2 g3 where g: "G = (g1, g2, g3)" by (cases G) auto
  have lk: "length (k_shift k G) = 3" using assms(2) by (simp add: k_shift_def vecR_list_def g)
  from gen_ham_entries[OF assms(1) lk] obtain H1 where
    H1: "gen_ham m (Some (k_shift k G)) = Inr H1" "is_mat (norb m) H1"
    "\<forall>a<norb m. \<forall>b<norb m. H1 ! a ! b = bloch_sum m (k_shift k G) a b" by blast
  from gen_ham_entries[OF assms(1,2)] obtain H2 where
    H2: "gen_ham m (Some k) = Inr H2" "is_mat (norb m) H2"
    "\<forall>a<norb m. \<forall>b<norb m. H2 ! a ! b = bloch_sum m k a b" by blast
  have "H1 = H2"
    using H1(2) H2(2)
  proof (rule is_mat_eqI)
    fix a b assume "a < norb m" "b < norb m"
    then show "H1 ! a ! b = H2 ! a ! b"
      using H1(3) H2(3) bloch_sum_shift[OF assms] by simp
  qed
  then show ?thesis using H1(1) H2(1) by simp
qed

lemma is_mat2: "is_mat 2 H \<Longrightarrow> H = [[H ! 0 ! 0, H ! 0 ! 1], [H ! 1 ! 0, H ! 1 ! 1]]"
proof -
  assume a: "is_mat 2 H"
  then have "length H = 2" by (simp add: is_mat_def)
  then obtain r s where H: "H = [r, s]"
    by (cases H; simp; cases "tl H"; auto)
  with a have "length r = 2" "length s = 2" by (simp_all add: is_mat_def)
  then obtain x y u v where "r = [x, y]" "s = [u, v]"
    by (cases r; simp; cases "tl r"; simp; cases s; simp; cases "tl s"; auto)
  with H show ?thesis by simp
qed

lemma cis_neg_pi: "cis (- pi) = - 1"
  by (simp add: complex_eq_iff)

lemma dimer_ham_0: "gen_ham dimer_model (Some [0, 0, 0]) = Inr [[0, 1], [1, 0]]"
proof -
  have n: "norb dimer_model = 2" by (simp add: dimer_model_def)
  from gen_ham_entries[OF wf_dimer_model, of "[0, 0, 0]"] obtain H where
    H: "gen_ham dimer_model (Some [0, 0, 0]) = Inr H" "is_mat 2 H"
    "\<forall>a<2. \<forall>b<2. H ! a ! b = bloch_sum dimer_model [0, 0, 0] a b"
    unfolding n by auto
  have b: "bloch_sum dimer_model [0, 0, 0] a b = (if a = 0 \<and> b = 1 \<or> a = 1 \<and> b = 0 then 1 else 0)" for a b
    by (simp add: bloch_sum_def dimer_model_def shells_def elem_sum_def hop_term_cis
      rvec_def vecR_list_def dot_sum_def)
  have "H ! 0 ! 0 = 0" "H ! 0 ! 1 = 1" "H ! 1 ! 0 = 1" "H ! 1 ! 1 = 0"
    using H(3) by (simp_all add: b)
  then show ?thesis using is_mat2[OF H(2)] H(1) by simp
qed

lemma dimer_ham_1: "gen_ham dimer_model (Some [1, 0, 0]) = Inr [[0, - 1], [- 1, 0]]"
proof -
  have n: "norb dimer_model = 2" by (simp add: dimer_model_def)
  from gen_ham_entries[OF wf_dimer_model, of "[1, 0, 0]"] obtain H where
    H: "gen_ham dimer_model (Some [1, 0, 0]) = Inr H" "is_mat 2 H"
    "\<forall>a<2. \<forall>b<2. H ! a ! b = bloch_sum dimer_model [1, 0, 0] a b"
    unfolding n by auto
  have b: "bloch_sum dimer_model [1, 0, 0] a b = (if a = 0 \<and> b = 1 \<or> a = 1 \<and> b = 0 then - 1 else 0)" for a b
    by (simp add: bloch_sum_def dimer_model_def shells_def elem_sum_def hop_term_cis
      rvec_def vecR_list_def dot_sum_def cis_neg_pi)
  have "H ! 0 ! 0 = 0" "H ! 0 ! 1 = - 1" "H ! 1 ! 0 = - 1" "H ! 1 ! 1 = 0"
    using H(3) by (simp_all add: b)
  then show ?thesis using is_mat2[OF H(2)] H(1) by simp
qed

text \<open>
  C3 as stated fails when orbitals sit at different fractional positions: the phase of
  \<open>_gen_ham\<close> contains \<open>orb[j] - orb[i]\<close>, and for the dimer the shift by \<open>G = (1,0,0)\<close> turns
  the off-diagonal entries from 1 into -1.
\<close>

theorem dimer_shift_counterexample:
  "gen_ham dimer_model (Some [0, 0, 0]) = Inr [[0, 1], [1, 0]] \<and>
   gen_ham dimer_model (Some (k_shift [0, 0, 0] (1, 0, 0))) = Inr [[0, - 1], [- 1, 0]]"
  by (simp add: dimer_ham_0 dimer_ham_1 k_shift_def vecR_list_def)

theorem gen_ham_reciprocal_shift_witness:
  "wf_model (chain_model (2 + \<i>)) \<and> length [1 / 3, 0, 0 :: real] = 3 \<and>
   gauge_integral (chain_model (2 + \<i>)) (1, 2, 3) \<and>
   gen_ham (chain_model (2 + \<i>)) (Some [1 / 3 + 1, 2, 3]) =
     gen_ham (chain_model (2 + \<i>)) (Some [1 / 3, 0, 0])"
proof -
  have g: "gauge_integral (chain_model (2 + \<i>)) (1, 2, 3)"
    by (simp add: gauge_integral_def chain_model_def shells_def is_integer_def vecR_list_def dot_sum_def)
  from gen_ham_reciprocal_shift[OF wf_chain_model _ g, of "[1 / 3, 0, 0]"]
  show ?thesis by (simp add: wf_chain_model g k_shift_def vecR_list_def)
qed

subsection \<open>Hermiticity of the Hamiltonian\<close>

lemma elem_sum_entries:
  "elem_sum m k a b deg vecR es =
     sum_list (map (entry_term m k a b) (map (\<lambda>e. (deg, vecR, fst e, fst (snd e), snd (snd e))) es))"
  by (induction es) (auto simp: elem_sum_def entry_term_def)

lemma bloch_sum_entries: "bloch_sum m k a b = sum_list (map (entry_term m k a b) (entries m))"
proof -
  have "(\<Sum>(deg, vecR, ham1) \<leftarrow> shs. elem_sum m k a b deg vecR ham1) =
        sum_list (map (entry_term m k a b)
          (concat (map (\<lambda>sh. map (\<lambda>e. (fst sh, fst (snd sh), fst e, fst (snd e), snd (snd e)))
                           (snd (snd sh))) shs)))" for shs
    by (induction shs) (auto simp: elem_sum_entries)
  then show ?thesis by (simp add: bloch_sum_def entries_def)
qed

lemma cnj_sum_list: "cnj (sum_list xs) = sum_list (map cnj xs)"
  by (induction xs) auto

lemma cnj_hop_term:
  assumes "length (orb m ! a) = 3" "length (orb m ! b) = 3" "length k = 3"
  shows "cnj (hop_term m k deg (r1, r2, r3) b a amp) =
         hop_term m k deg (- r1, - r2, - r3) a b (cnj amp)"
proof -
  obtain x1 x2 x3 where oa: "orb m ! a = [x1, x2, x3]" using length3[OF assms(1)] by blast
  obtain y1 y2 y3 where ob: "orb m ! b = [y1, y2, y3]" using length3[OF assms(2)] by blast
  obtain k1 k2 k3 where k: "k = [k1, k2, k3]" using length3[OF assms(3)] by blast
  have d: "dot_sum k (rvec m a b (- r1, - r2, - r3)) = - dot_sum k (rvec m b a (r1, r2, r3))"
    by (simp add: rvec_def dot_sum_def vecR_list_def oa ob k algebra_simps)
  show ?thesis
    unfolding hop_term_cis d by (simp add: cis_cnj)
qed

lemma cnj_entry_term:
  assumes "length (orb m ! a) = 3" "length (orb m ! b) = 3" "length k = 3"
  shows "cnj (entry_term m k b a x) = entry_term m k a b (partner x)"
proof -
  obtain deg r1 r2 r3 i j amp where x: "x = (deg, (r1, r2, r3), i, j, amp)"
    by (cases x) auto
  show ?thesis
    using cnj_hop_term[OF assms, of deg r1 r2 r3 amp]
    by (auto simp: x entry_term_def partner_def)
qed

lemma bloch_sum_hermitian:
  assumes "wf_model m" "length k = 3" "balanced m" "a < norb m" "b < norb m"
  shows "bloch_sum m k a b = cnj (bloch_sum m k b a)"
proof -
  from assms(1) have w: "norb m = length (orb m)" "list_all (\<lambda>r. length r = 3) (orb m)"
    unfolding wf_model_def by blast+
  have la: "length (orb m ! a) = 3" and lb: "length (orb m ! b) = 3"
    using w assms(4,5) by (simp_all add: list_all_length)
  have "cnj (bloch_sum m k b a) = sum_list (map (\<lambda>x. cnj (entry_term m k b a x)) (entries m))"
    by (simp add: bloch_sum_entries cnj_sum_list comp_def)
  also have "\<dots> = sum_list (map (entry_term m k a b) (map partner (entries m)))"
    by (simp add: cnj_entry_term[OF la lb assms(2)] comp_def)
  also have "\<dots> = sum_mset (image_mset (entry_term m k a b) (mset (map partner (entries m))))"
    by (simp only: mset_map[symmetric] sum_mset_sum_list)
  also have "\<dots> = sum_mset (image_mset (entry_term m k a b) (mset (entries m)))"
    using assms(3) by (simp only: balanced_def)
  also have "\<dots> = bloch_sum m k a b"
    by (simp only: mset_map[symmetric] sum_mset_sum_list bloch_sum_entries)
  finally show ?thesis by simp
qed

lemma fold_max_zero: "\<forall>x\<in>set xs. x = 0 \<Longrightarrow> fold max xs (0::real) = 0"
  by (induction xs) simp_all

lemma herm_dev_set:
  "x \<in> set (herm_dev H) \<Longrightarrow> \<exists>a<length H. \<exists>b<length H. x = H ! a ! b - cnj (H ! b ! a)"
proof -
  assume "x \<in> set (herm_dev H)"
  then obtain a where a: "a < length H"
    "x \<in> set (map (\<lambda>b. H ! a ! b - cnj (H ! b ! a)) [0..<length H])"
    unfolding herm_dev_def by auto
  from a(2) obtain b where "b < length H" "x = H ! a ! b - cnj (H ! b ! a)" by auto
  with a(1) show ?thesis by blast
qed

lemma max_abs_dev_hermitian:
  assumes "\<forall>a<length H. \<forall>b<length H. H ! a ! b = cnj (H ! b ! a)"
  shows "max_abs_dev H = 0"
  unfolding max_abs_dev_def
proof (rule fold_max_zero, rule ballI)
  fix x assume "x \<in> set (map cmod (herm_dev H))"
  then obtain y where y: "y \<in> set (herm_dev H)" "x = cmod y" by auto
  from herm_dev_set[OF y(1)] obtain a b where
    ab: "a < length H" "b < length H" and yab: "y = H ! a ! b - cnj (H ! b ! a)" by blast
  from assms ab have "H ! a ! b = cnj (H ! b ! a)" by blast
  then have "y = 0" unfolding yab by simp
  with y show "x = 0" by simp
qed

text \<open>
  C2 (amended).  For a model that respects the data model and whose table is balanced
  (every element \<open>(i, j, amp)\<close> of a shell \<open>(R, deg)\<close> occurs as often as its partner
  \<open>(j, i, conj amp)\<close> in a shell \<open>(-R, deg)\<close>), the Hamiltonian at every real k-vector of
  length 3 is Hermitian: each entry is the conjugate of the transposed one, and the largest
  deviation is within \<open>1e-9\<close>.
\<close>

theorem gen_ham_hermitian:
  assumes "wf_model m" and "length k = 3" and "balanced m"
  shows "\<exists>H. gen_ham m (Some k) = Inr H \<and> is_mat (norb m) H \<and>
             (\<forall>a<norb m. \<forall>b<norb m. H ! a ! b = cnj (H ! b ! a)) \<and>
             max_abs_dev H \<le> 1 / 10 ^ 9"
proof -
  from gen_ham_entries[OF assms(1,2)] obtain H where
    H: "gen_ham m (Some k) = Inr H" "is_mat (norb m) H"
    "\<forall>a<norb m. \<forall>b<norb m. H ! a ! b = bloch_sum m k a b" by blast
  have herm: "\<forall>a<norb m. \<forall>b<norb m. H ! a ! b = cnj (H ! b ! a)"
  proof (intro allI impI)
    fix a b assume ab: "a < norb m" "b < norb m"
    have "H ! a ! b = bloch_sum m k a b" using H(3) ab by blast
    also have "\<dots> = cnj (bloch_sum m k b a)" by (rule bloch_sum_hermitian[OF assms ab])
    also have "bloch_sum m k b a = H ! b ! a" using H(3) ab by simp
    finally show "H ! a ! b = cnj (H ! b ! a)" .
  qed
  have len: "length H = norb m" using H(2) by (simp add: is_mat_def)
  have "max_abs_dev H = 0"
    by (rule max_abs_dev_hermitian) (unfold len, rule herm)
  then have dev: "max_abs_dev H \<le> 1 / 10 ^ 9" by simp
  show ?thesis
    by (intro exI[of _ H] conjI H(1) H(2) herm dev)
qed

lemma balanced_chain_model: "balanced (chain_model t)"
  by (simp add: balanced_def entries_def chain_model_def shells_def partner_def)

theorem gen_ham_hermitian_witness:
  "wf_model (chain_model (2 + \<i>)) \<and> length [1 / 3, 0, 0 :: real] = 3 \<and>
   balanced (chain_model (2 + \<i>)) \<and>
   (\<exists>H. gen_ham (chain_model (2 + \<i>)) (Some [1 / 3, 0, 0]) = Inr H \<and> is_mat 1 H \<and>
        H ! 0 ! 0 = cnj (H ! 0 ! 0) \<and> max_abs_dev H \<le> 1 / 10 ^ 9)"
proof -
  have n: "norb (chain_model (2 + \<i>)) = 1" by (simp add: chain_model_def)
  from gen_ham_hermitian[OF wf_chain_model _ balanced_chain_model, of "[1 / 3, 0, 0]" "2 + \<i>"]
  show ?thesis unfolding n by (simp add: wf_chain_model balanced_chain_model)
qed

lemma wf_dup_model: "wf_model dup_model"
  by (simp add: wf_model_def dup_model_def shells_def valid_shell_def valid_elem_def)

lemma has_partners_dup_model: "has_partners dup_model"
  by (simp add: has_partners_def entries_def dup_model_def shells_def partner_def)

lemma dup_ham: "gen_ham dup_model (Some [0, 0, 0]) = Inr [[0, 2], [1, 0]]"
proof -
  have n: "norb dup_model = 2" by (simp add: dup_model_def)
  from gen_ham_entries[OF wf_dup_model, of "[0, 0, 0]"] obtain H where
    H: "gen_ham dup_model (Some [0, 0, 0]) = Inr H" "is_mat 2 H"
    "\<forall>a<2. \<forall>b<2. H ! a ! b = bloch_sum dup_model [0, 0, 0] a b"
    unfolding n by auto
  have b: "bloch_sum dup_model [0, 0, 0] a b = (if a = 0 \<and> b = 1 then 2 else if a = 1 \<and> b = 0 then 1 else 0)" for a b
    by (simp add: bloch_sum_def dup_model_def shells_def elem_sum_def hop_term_cis
      rvec_def vecR_list_def dot_sum_def)
  have "H ! 0 ! 0 = 0" "H ! 0 ! 1 = 2" "H ! 1 ! 0 = 1" "H ! 1 ! 1 = 0"
    using H(3) by (simp_all add: b)
  then show ?thesis using is_mat2[OF H(2)] H(1) by simp
qed

text \<open>
  C2 as stated asks only that a partner exists.  \<open>dup_model\<close> meets that, and its
  Hamiltonian at \<open>k = 0\<close> has the entries 2 and 1 across the diagonal.
\<close>

theorem duplicate_element_counterexample:
  "wf_model dup_model \<and> has_partners dup_model \<and>
   gen_ham dup_model (Some [0, 0, 0]) = Inr [[0, 2], [1, 0]] \<and>
   max_abs_dev [[0, 2], [1, 0]] = 1 \<and> 1 / 10 ^ 9 < max_abs_dev [[0, 2], [1, 0]]"
proof -
  have "herm_dev [[0, 2], [1, 0]] = [0, 1, - 1, 0]"
    by (simp add: herm_dev_def)
  then have "max_abs_dev [[0, 2], [1, 0]] = 1"
    by (simp add: max_abs_dev_def)
  then show ?thesis
    by (simp add: wf_dup_model has_partners_dup_model dup_ham)
qed

subsection \<open>The Hermiticity check of \<open>_sol_ham\<close>\<close>

lemma herm_dev_i: "herm_dev [[\<i>]] = [2 * \<i>]"
  by (simp add: herm_dev_def)

lemma sol_ham_i:
  "sol_ham eigvalsh eigh [[\<i>]] b =
     (if b then nicefy_eig (fst (eigh [[\<i>]])) (Some (snd (eigh [[\<i>]])))
      else nicefy_eig (eigvalsh [[\<i>]]) None)"
  by (simp add: sol_ham_def is_mat_def herm_dev_i np_max_def bind_err_def cgt_def)

lemma nicefy_eig_no_exception: "nicefy_eig ev eg \<noteq> Inl (Exception s)"
  by (cases eg) (auto simp: nicefy_eig_def Let_def bind_err_def take_rows_def)

lemma wf_half_chain_model: "wf_model half_chain_model"
  by (simp add: wf_model_def half_chain_model_def shells_def valid_shell_def valid_elem_def)

lemma half_chain_ham: "gen_ham half_chain_model (Some [1 / 4, 0, 0]) = Inr [[\<i>]]"
proof -
  have n: "norb half_chain_model = Suc 0" by (simp add: half_chain_model_def)
  from gen_ham_entries[OF wf_half_chain_model, of "[1 / 4, 0, 0]"] obtain H where
    H: "gen_ham half_chain_model (Some [1 / 4, 0, 0]) = Inr H" "is_mat (Suc 0) H"
    "H ! 0 ! 0 = bloch_sum half_chain_model [1 / 4, 0, 0] 0 0"
    unfolding n by auto
  have "bloch_sum half_chain_model [1 / 4, 0, 0] 0 0 = \<i>"
    by (simp add: bloch_sum_def half_chain_model_def shells_def elem_sum_def hop_term_cis
        rvec_def vecR_list_def dot_sum_def)
  then show ?thesis using is_mat1[OF H(2)] H(1) H(3) by simp
qed

lemma fold_cmaximum_mem: "fold (\<lambda>y acc. cmaximum acc y) ys x \<in> set (x # ys)"
proof (induction ys arbitrary: x)
  case Nil
  then show ?case by simp
next
  case (Cons y ys)
  have "fold (\<lambda>y acc. cmaximum acc y) ys (cmaximum x y) \<in> set (cmaximum x y # ys)"
    by (rule Cons.IH)
  then show ?case by (auto simp: cmaximum_def split: if_splits)
qed

lemma np_max_mem: "np_max xs = Inr mx \<Longrightarrow> mx \<in> set xs"
proof -
  assume a: "np_max xs = Inr mx"
  then have ne: "xs \<noteq> []" by (auto simp: np_max_def split: if_splits)
  then have "mx = fold (\<lambda>y acc. cmaximum acc y) (tl xs) (hd xs)"
    using a by (simp add: np_max_def)
  then have "mx \<in> set (hd xs # tl xs)" using fold_cmaximum_mem by simp
  then show ?thesis using ne by simp
qed

lemma fold_max_ge_init: "(a::real) \<le> fold max xs a"
proof (induction xs arbitrary: a)
  case Nil
  then show ?case by simp
next
  case (Cons x xs)
  have "max x a \<le> fold max xs (max x a)" by (rule Cons.IH)
  then show ?case by simp
qed

lemma fold_max_ge: "x \<in> set xs \<Longrightarrow> (x::real) \<le> fold max xs a"
proof (induction xs arbitrary: a)
  case Nil
  then show ?case by simp
next
  case (Cons y xs)
  show ?case
  proof (cases "x = y")
    case True
    have "max y a \<le> fold max xs (max y a)" by (rule fold_max_ge_init)
    then show ?thesis using True by simp
  next
    case False
    then have "x \<in> set xs" using Cons.prems by simp
    then show ?thesis using Cons.IH by simp
  qed
qed

lemma cgt_cmod:
  assumes "cgt z (complex_of_real t)" "0 \<le> t"
  shows "t < cmod z"
proof -
  from assms(1) consider "t < Re z" | "Re z = t" "0 < Im z"
    by (auto simp: cgt_def)
  then show ?thesis
  proof cases
    case 1
    then show ?thesis using complex_Re_le_cmod[of z] by simp
  next
    case 2
    have "(Re z)\<^sup>2 < (Re z)\<^sup>2 + (Im z)\<^sup>2" using 2(2) by simp
    then have "sqrt ((Re z)\<^sup>2) < cmod z"
      unfolding cmod_def by (rule real_sqrt_less_mono)
    then show ?thesis using 2(1) assms(2) by simp
  qed
qed

text \<open>
  One direction of the check is right: when \<open>_sol_ham\<close> raises its Hermiticity exception,
  the largest deviation does exceed \<open>1e-9\<close>.
\<close>

lemma sol_ham_exception_sound:
  assumes "sol_ham eigvalsh eigh ham b = Inl (Exception msg_not_hermitian)"
  shows "1 / 10 ^ 9 < max_abs_dev ham"
proof -
  from assms obtain mx where mx: "np_max (herm_dev ham) = Inr mx" and g: "cgt mx (1 / 10 ^ 9)"
    by (auto simp: sol_ham_def bind_err_def nicefy_eig_no_exception np_max_def
        split: if_splits sum.splits)
  have "(1 / 10 ^ 9 :: complex) = complex_of_real (1 / 10 ^ 9)" by simp
  with g have "1 / 10 ^ 9 < cmod mx" using cgt_cmod[of mx "1 / 10 ^ 9"] by simp
  moreover have "cmod mx \<in> set (map cmod (herm_dev ham))"
    using np_max_mem[OF mx] by simp
  then have "cmod mx \<le> max_abs_dev ham"
    unfolding max_abs_dev_def by (rule fold_max_ge)
  ultimately show ?thesis by simp
qed

text \<open>
  C4.  The check compares \<open>np.max(ham - ham.T.conj())\<close>, a complex number picked by its real
  part, with \<open>1e-9\<close>; no absolute value is taken.  The 1 by 1 matrix with entry \<open>i\<close> is the
  Hamiltonian at \<open>k = [1/4,0,0]\<close> of a chain whose table lacks the partner hop.  It differs
  from its conjugate transpose by \<open>2i\<close>, of modulus 2, and is passed on to the eigensolver:
  no Hermiticity exception is raised for it.
\<close>

theorem sol_ham_accepts_imaginary_diagonal:
  "gen_ham half_chain_model (Some [1 / 4, 0, 0]) = Inr [[\<i>]] \<and>
   sol_ham eigvalsh eigh [[\<i>]] False = nicefy_eig (eigvalsh [[\<i>]]) None \<and>
   sol_ham eigvalsh eigh [[\<i>]] True =
     nicefy_eig (fst (eigh [[\<i>]])) (Some (snd (eigh [[\<i>]]))) \<and>
   sol_ham eigvalsh eigh [[\<i>]] b \<noteq> Inl (Exception msg_not_hermitian) \<and>
   max_abs_dev [[\<i>]] = 2 \<and> 1 / 10 ^ 9 < max_abs_dev [[\<i>]]"
  by (simp add: half_chain_ham sol_ham_i nicefy_eig_no_exception max_abs_dev_def herm_dev_i
      norm_mult)

subsection \<open>Sorting and reconstruction\<close>

lemma Im_sum_list_0: "(\<And>x. x \<in> set xs \<Longrightarrow> Im (f x) = 0) \<Longrightarrow> Im (sum_list (map f xs)) = 0"
  by (induction xs) auto

lemma recon_diag_real: "Im (recon_entry V E a a) = 0"
  unfolding recon_entry_def by (rule Im_sum_list_0) (simp add: mult.commute)

lemma reconstruct_not_i: "reconstruct V E \<noteq> [[\<i>]]"
proof
  assume r: "reconstruct V E = [[\<i>]]"
  have "length (reconstruct V E) = length V" by (simp add: reconstruct_def)
  with r have "length V = 1" by simp
  then have "reconstruct V E = [[recon_entry V E 0 0]]" by (simp add: reconstruct_def)
  with r have "recon_entry V E 0 0 = \<i>" by simp
  then show False using recon_diag_real[of V E 0] by simp
qed

lemma sorted_argsort: "sorted (map (nth xs) (argsort xs))"
proof -
  have "map (nth xs) (argsort xs) = map fst (sort_key fst (zip xs [0..<length xs]))"
  proof -
    have "\<forall>p \<in> set (sort_key fst (zip xs [0..<length xs])). xs ! snd p = fst p"
      by (auto simp: set_zip)
    then show ?thesis unfolding argsort_def by (simp add: map_eq_conv)
  qed
  then show ?thesis by simp
qed

lemma length_argsort: "length (argsort xs) = length xs"
  by (simp add: argsort_def)

text \<open>The eigenvalues come back in ascending order, as many as the solver gave.\<close>

lemma nicefy_eig_sorted:
  "nicefy_eig ev eg = Inr (es, r) \<Longrightarrow> sorted es \<and> length es = length ev"
  by (cases eg) (auto simp: nicefy_eig_def Let_def bind_err_def sorted_argsort length_argsort
      split: sum.splits)

text \<open>
  C6.  The matrix with entry \<open>i\<close>, the Hamiltonian of the chain without the partner hop at
  \<open>k = [1/4,0,0]\<close>, passes the check of \<open>_sol_ham\<close> and is handed to the solver with
  eigenvectors requested.  Whatever array \<open>V\<close> and real values \<open>E\<close> come back, the diagonal of
  \<open>V diag(E) V*\<close> is real, so the product is not that matrix.
\<close>

theorem sol_ham_result_cannot_reconstruct:
  "gen_ham half_chain_model (Some [1 / 4, 0, 0]) = Inr [[\<i>]] \<and>
   sol_ham eigvalsh eigh [[\<i>]] True =
     nicefy_eig (fst (eigh [[\<i>]])) (Some (snd (eigh [[\<i>]]))) \<and>
   sol_ham eigvalsh eigh [[\<i>]] True \<noteq> Inl (Exception msg_not_hermitian) \<and>
   Im (recon_entry V E 0 0) = 0 \<and> reconstruct V E \<noteq> [[\<i>]]"
  by (simp add: half_chain_ham sol_ham_i nicefy_eig_no_exception recon_diag_real
      reconstruct_not_i)

subsection \<open>The uniform mesh\<close>

lemma ravel_lt: "list_all2 (<) idx s \<Longrightarrow> ravel s idx < prod_list s"
proof (induction s arbitrary: idx)
  case Nil
  then show ?case by simp
next
  case (Cons n s)
  then obtain i ids where idx: "idx = i # ids" and i: "i < n" and r: "list_all2 (<) ids s"
    by (cases idx) auto
  have "ravel s ids < prod_list s" using Cons.IH[OF r] .
  moreover have "i * prod_list s + prod_list s \<le> n * prod_list s"
    using i by (metis Suc_leI mult_Suc mult_le_mono1 add.commute)
  ultimately show ?case by (simp add: idx)
qed

lemma unravel_ravel: "list_all2 (<) idx s \<Longrightarrow> unravel s (ravel s idx) = idx"
proof (induction s arbitrary: idx)
  case Nil
  then show ?case by simp
next
  case (Cons n s)
  then obtain i ids where idx: "idx = i # ids" and i: "i < n" and r: "list_all2 (<) ids s"
    by (cases idx) auto
  have lt: "ravel s ids < prod_list s" using r by (rule ravel_lt)
  then have "(i * prod_list s + ravel s ids) div prod_list s = i"
    and "(i * prod_list s + ravel s ids) mod prod_list s = ravel s ids"
    by simp_all
  then show ?case using Cons.IH[OF r] by (simp add: idx)
qed

lemma unravel_bounds: "p < prod_list s \<Longrightarrow> list_all2 (<) (unravel s p) s"
proof (induction s arbitrary: p)
  case Nil
  then show ?case by simp
next
  case (Cons n s)
  from Cons.prems have pos: "0 < prod_list s" by (cases "prod_list s = 0") auto
  have "p div prod_list s < n"
    using Cons.prems pos by (simp add: less_mult_imp_div_less mult.commute)
  moreover have "p mod prod_list s < prod_list s" using pos by simp
  ultimately show ?case using Cons.IH by simp
qed

lemma ravel_unravel: "p < prod_list s \<Longrightarrow> ravel s (unravel s p) = p"
proof (induction s arbitrary: p)
  case Nil
  then show ?case by simp
next
  case (Cons n s)
  from Cons.prems have pos: "0 < prod_list s" by (cases "prod_list s = 0") auto
  have "p mod prod_list s < prod_list s" using pos by simp
  from Cons.IH[OF this] show ?case by simp
qed

lemma unravel3:
  assumes "p < n1 * n2 * n3"
  shows "\<exists>i1 i2 i3. unravel [n1, n2, n3] p = [i1, i2, i3] \<and> i1 < n1 \<and> i2 < n2 \<and> i3 < n3 \<and>
           p = i1 * (n2 * n3) + i2 * n3 + i3"
proof -
  have p: "p < prod_list [n1, n2, n3]" using assms by (simp add: mult.assoc)
  from unravel_bounds[OF p] obtain i1 i2 i3 where
    u: "unravel [n1, n2, n3] p = [i1, i2, i3]" and b: "i1 < n1" "i2 < n2" "i3 < n3"
    by (auto simp: list_all2_Cons2)
  from ravel_unravel[OF p] have "p = i1 * (n2 * n3) + i2 * n3 + i3"
    unfolding u by simp
  with u b show ?thesis by blast
qed

lemma unravel4:
  assumes "i1 < n1" "i2 < n2" "i3 < n3" "c < 3"
  shows "unravel [n1, n2, n3, 3] ((i1 * (n2 * n3) + i2 * n3 + i3) * 3 + c) = [i1, i2, i3, c]"
proof -
  have "list_all2 (<) [i1, i2, i3, c] [n1, n2, n3, 3]" using assms by simp
  from unravel_ravel[OF this] show ?thesis by (simp add: algebra_simps)
qed

lemma upt4: "[0..<4] = [0, 1, 2, Suc 2]"
  by (simp add: numeral_eq_Suc)

lemma upt3: "[0..<3] = [0, 1, 2]"
  by (simp add: numeral_eq_Suc)

lemma transpose_3012:
  "nd_item (np_transpose [3, 0, 1, 2] a) [c, i1, i2, i3] = nd_item a [i1, i2, i3, c]"
  by (simp add: np_transpose_def axis_pos_def upt4)

lemma transpose_1230:
  "nd_item (np_transpose [1, 2, 3, 0] a) [i1, i2, i3, c] = nd_item a [c, i1, i2, i3]"
  by (simp add: np_transpose_def axis_pos_def upt4)

lemma shape_transpose_3012:
  "nd_shape a = [n1, n2, n3, m] \<Longrightarrow> nd_shape (np_transpose [3, 0, 1, 2] a) = [m, n1, n2, n3]"
  by (simp add: np_transpose_def)

lemma shape_transpose_1230:
  "nd_shape a = [m, n1, n2, n3] \<Longrightarrow> nd_shape (np_transpose [1, 2, 3, 0] a) = [n1, n2, n3, m]"
  by (simp add: np_transpose_def)

lemma py_round_int: "py_round (of_int n) = n"
  by (simp add: py_round_def)

lemma py_round_nat: "py_round (real n) = int n"
  using py_round_int[of "int n"] by simp

lemma tile_item:
  assumes "i1 < n1" "i2 < n2" "i3 < n3" "c < 3"
  shows "nd_item (np_tile [a0, a1, a2] [n1, n2, n3])
           (unravel [n1, n2, n3 * 3] (ravel [n1, n2, n3, 3] [i1, i2, i3, c])) = [a0, a1, a2] ! c"
proof -
  have b: "list_all2 (<) [i1, i2, i3 * 3 + c] [n1, n2, n3 * 3]"
    using assms by simp
  have "ravel [n1, n2, n3, 3] [i1, i2, i3, c] = ravel [n1, n2, n3 * 3] [i1, i2, i3 * 3 + c]"
    by (simp add: algebra_simps)
  then have "unravel [n1, n2, n3 * 3] (ravel [n1, n2, n3, 3] [i1, i2, i3, c]) = [i1, i2, i3 * 3 + c]"
    using unravel_ravel[OF b] by simp
  then show ?thesis using assms(4) by (simp add: np_tile_def)
qed

lemma nth3: "c < 3 \<Longrightarrow> [real_of_int (int n1), real_of_int (int n2), real_of_int (int n3)] ! c = real ([n1, n2, n3] ! c)"
  by (cases c; simp; cases "c - 1"; simp; cases "c - 2"; simp)

lemma nth_shift: "c < 3 \<Longrightarrow> [c, i1, i2, i3] ! Suc c = [i1, i2, i3 :: nat] ! c"
  by simp

lemma mesh_item:
  assumes "p < n1 * n2 * n3" "c < 3"
  defines "A \<equiv> [real_of_int (int n1), real_of_int (int n2), real_of_int (int n3)]"
  defines "norm1 \<equiv> \<lparr> nd_shape = [n1, n2, n3, 3],
      nd_item = (\<lambda>idx. nd_item (np_tile A [n1, n2, n3])
                   (unravel [n1, n2, n3 * 3] (ravel [n1, n2, n3, 3] idx))) \<rparr>"
  defines "k_vec1 \<equiv> \<lparr> nd_shape = [3, n1, n2, n3],
      nd_item = (\<lambda>idx. real (nd_item (np_mgrid3 n1 n2 n3) idx) /
                         nd_item (np_transpose [3, 0, 1, 2] norm1) idx) \<rparr>"
  shows "nd_item (np_transpose [1, 2, 3, 0] k_vec1) (unravel [n1, n2, n3, 3] (p * 3 + c)) =
           real (unravel [n1, n2, n3] p ! c) / real ([n1, n2, n3] ! c)"
proof -
  from unravel3[OF assms(1)] obtain i1 i2 i3 where
    u: "unravel [n1, n2, n3] p = [i1, i2, i3]" and b: "i1 < n1" "i2 < n2" "i3 < n3"
    and p: "p = i1 * (n2 * n3) + i2 * n3 + i3" by blast
  have u4: "unravel [n1, n2, n3, 3] (p * 3 + c) = [i1, i2, i3, c]"
    unfolding p by (rule unravel4[OF b assms(2)])
  have n: "nd_item (np_transpose [3, 0, 1, 2] norm1) [c, i1, i2, i3] = A ! c"
    unfolding transpose_3012 norm1_def A_def
    using tile_item[OF b assms(2)] by simp
  have g: "nd_item (np_mgrid3 n1 n2 n3) [c, i1, i2, i3] = [i1, i2, i3] ! c"
    using assms(2) by (simp add: np_mgrid3_def)
  have "nd_item k_vec1 [c, i1, i2, i3] =
          real (nd_item (np_mgrid3 n1 n2 n3) [c, i1, i2, i3]) /
          nd_item (np_transpose [3, 0, 1, 2] norm1) [c, i1, i2, i3]"
    by (simp only: k_vec1_def ndarray.select_convs)
  then have "nd_item (np_transpose [1, 2, 3, 0] k_vec1) [i1, i2, i3, c] =
          real ([i1, i2, i3] ! c) / A ! c"
    unfolding transpose_1230 n g .
  then show ?thesis
    unfolding u4 u A_def nth3[OF assms(2)] .
qed

lemma mesh_eval:
  assumes "0 < n1" "0 < n2" "0 < n3"
  shows "k_uniform_mesh [real n1, real n2, real n3] =
           Inr (map (mesh_point n1 n2 n3) [0..<n1 * n2 * n3])"
proof -
  define A where "A = [real_of_int (int n1), real_of_int (int n2), real_of_int (int n3)]"
  define norm1 where "norm1 = \<lparr> nd_shape = [n1, n2, n3, 3],
      nd_item = (\<lambda>idx. nd_item (np_tile A [n1, n2, n3])
                   (unravel [n1, n2, n3 * 3] (ravel [n1, n2, n3, 3] idx))) \<rparr>"
  define k_vec1 where "k_vec1 = \<lparr> nd_shape = [3, n1, n2, n3],
      nd_item = (\<lambda>idx. real (nd_item (np_mgrid3 n1 n2 n3) idx) /
                         nd_item (np_transpose [3, 0, 1, 2] norm1) idx) \<rparr>"
  define k_vec2 where "k_vec2 = \<lparr> nd_shape = [n1 * n2 * n3, 3],
      nd_item = (\<lambda>idx. nd_item (np_transpose [1, 2, 3, 0] k_vec1)
                   (unravel [n1, n2, n3, 3] (ravel [n1 * n2 * n3, 3] idx))) \<rparr>"
  have um: "map py_round [real n1, real n2, real n3] = [int n1, int n2, int n3]"
    by (simp add: py_round_nat)
  have pos: "\<not> fold min (tl [int n1, int n2, int n3]) (hd [int n1, int n2, int n3]) \<le> 0"
    using assms by simp
  have sh: "nd_shape (np_tile A [n1, n2, n3]) = [n1, n2, n3 * 3]"
    by (simp add: np_tile_def A_def)
  have r1: "np_reshape ([n1, n2, n3] @ [3]) (np_tile A [n1, n2, n3]) = Inr norm1"
    unfolding np_reshape_def sh norm1_def by simp
  have d1: "nd_div (np_mgrid3 n1 n2 n3) (np_transpose [3, 0, 1, 2] norm1) = Inr k_vec1"
    by (simp add: nd_div_def np_mgrid3_def np_transpose_def norm1_def k_vec1_def)
  have r2: "np_reshape [n1 * n2 * n3, 3] (np_transpose [1, 2, 3, 0] k_vec1) = Inr k_vec2"
    by (simp add: np_reshape_def np_transpose_def k_vec1_def k_vec2_def)
  have rows: "to_rows k_vec2 = map (mesh_point n1 n2 n3) [0..<n1 * n2 * n3]"
  proof -
    have "map (\<lambda>c. nd_item k_vec2 [p, c]) [0..<3] = mesh_point n1 n2 n3 p"
      if p: "p \<in> set [0..<n1 * n2 * n3]" for p
      unfolding mesh_point_def
    proof (rule map_cong[OF refl])
      fix c assume "c \<in> set [0..<3]"
      then have c: "c < 3" by simp
      from p have p': "p < n1 * n2 * n3" by simp
      have "nd_item k_vec2 [p, c] =
              nd_item (np_transpose [1, 2, 3, 0] k_vec1) (unravel [n1, n2, n3, 3] (p * 3 + c))"
        by (simp add: k_vec2_def)
      also have "\<dots> = real (unravel [n1, n2, n3] p ! c) / real ([n1, n2, n3] ! c)"
        unfolding k_vec1_def norm1_def A_def by (rule mesh_item[OF p' c])
      finally show "nd_item k_vec2 [p, c] = real (unravel [n1, n2, n3] p ! c) / real ([n1, n2, n3] ! c)" .
    qed
    then have "map (\<lambda>r. map (\<lambda>c. nd_item k_vec2 [r, c]) [0..<3]) [0..<n1 * n2 * n3] =
               map (mesh_point n1 n2 n3) [0..<n1 * n2 * n3]"
      by (rule map_cong[OF refl])
    moreover have "nd_shape k_vec2 ! 0 = n1 * n2 * n3" "nd_shape k_vec2 ! 1 = 3"
      by (simp_all add: k_vec2_def)
    ultimately show ?thesis by (simp add: to_rows_def)
  qed
  have "k_uniform_mesh [real n1, real n2, real n3] = Inr (to_rows k_vec2)"
    unfolding k_uniform_mesh_def Let_def um
    using pos r1 d1 r2
    by (simp add: dim_k_def bind_err_def A_def)
  then show ?thesis by (simp only: rows)
qed

lemma mesh_point_unravel:
  "unravel [n1, n2, n3] p = [i1, i2, i3] \<Longrightarrow>
   mesh_point n1 n2 n3 p = [real i1 / real n1, real i2 / real n2, real i3 / real n3]"
  by (simp add: mesh_point_def upt3)

lemma mesh_point_index:
  assumes "i1 < n1" "i2 < n2" "i3 < n3"
  shows "i1 * n2 * n3 + i2 * n3 + i3 < n1 * n2 * n3"
    and "mesh_point n1 n2 n3 (i1 * n2 * n3 + i2 * n3 + i3) =
           [real i1 / real n1, real i2 / real n2, real i3 / real n3]"
proof -
  have b: "list_all2 (<) [i1, i2, i3] [n1, n2, n3]" using assms by simp
  have r: "ravel [n1, n2, n3] [i1, i2, i3] = i1 * n2 * n3 + i2 * n3 + i3"
    by (simp add: mult.assoc)
  from ravel_lt[OF b] show "i1 * n2 * n3 + i2 * n3 + i3 < n1 * n2 * n3"
    unfolding r by (simp add: mult.assoc)
  from unravel_ravel[OF b] have "unravel [n1, n2, n3] (i1 * n2 * n3 + i2 * n3 + i3) = [i1, i2, i3]"
    unfolding r .
  then show "mesh_point n1 n2 n3 (i1 * n2 * n3 + i2 * n3 + i3) =
           [real i1 / real n1, real i2 / real n2, real i3 / real n3]"
    by (rule mesh_point_unravel)
qed

lemma mesh_point_range:
  assumes "p < n1 * n2 * n3" "x \<in> set (mesh_point n1 n2 n3 p)"
  shows "0 \<le> x \<and> x < 1"
proof -
  from unravel3[OF assms(1)] obtain i1 i2 i3 where
    u: "unravel [n1, n2, n3] p = [i1, i2, i3]" and b: "i1 < n1" "i2 < n2" "i3 < n3" by blast
  from assms(2) have "x = real i1 / real n1 \<or> x = real i2 / real n2 \<or> x = real i3 / real n3"
    unfolding mesh_point_unravel[OF u] by simp
  then show ?thesis using b by auto
qed

lemma mesh_point_zero:
  assumes "p < n1 * n2 * n3" "mesh_point n1 n2 n3 p = [0, 0, 0]"
  shows "p = 0"
proof -
  from unravel3[OF assms(1)] obtain i1 i2 i3 where
    u: "unravel [n1, n2, n3] p = [i1, i2, i3]" and b: "i1 < n1" "i2 < n2" "i3 < n3"
    and p: "p = i1 * (n2 * n3) + i2 * n3 + i3" by blast
  from assms(2) have "real i1 / real n1 = 0" "real i2 / real n2 = 0" "real i3 / real n3 = 0"
    unfolding mesh_point_unravel[OF u] by simp_all
  with b have "i1 = 0" "i2 = 0" "i3 = 0" by auto
  with p show ?thesis by simp
qed

lemma count_list_first:
  assumes "xs \<noteq> []" "xs ! 0 = z" "\<forall>i. 0 < i \<and> i < length xs \<longrightarrow> xs ! i \<noteq> z"
  shows "count_list xs z = 1"
proof -
  from assms(1,2) obtain ys where xs: "xs = z # ys" by (cases xs) auto
  have "z \<notin> set ys"
  proof
    assume "z \<in> set ys"
    then obtain i where "i < length ys" "ys ! i = z" by (auto simp: in_set_conv_nth)
    then have "0 < Suc i \<and> Suc i < length xs" "xs ! Suc i = z" by (simp_all add: xs)
    with assms(3) show False by blast
  qed
  then have "count_list ys z = 0" by (simp add: count_list_0_iff)
  then show ?thesis by (simp add: xs)
qed

text \<open>
  C7.  For positive sizes \<open>n1, n2, n3\<close> the mesh has \<open>n1 * n2 * n3\<close> points; the point at
  position \<open>i1 * n2 * n3 + i2 * n3 + i3\<close> is \<open>(i1/n1, i2/n2, i3/n3)\<close>, so the last dimension
  varies fastest; the first point is the zero vector, which occurs exactly once; every
  point has three coordinates, all in \<open>[0, 1)\<close>.
\<close>

theorem k_uniform_mesh_points:
  assumes "0 < n1" and "0 < n2" and "0 < n3"
  shows "\<exists>pts. k_uniform_mesh [real n1, real n2, real n3] = Inr pts \<and>
           length pts = n1 * n2 * n3 \<and>
           (\<forall>i1<n1. \<forall>i2<n2. \<forall>i3<n3.
              pts ! (i1 * n2 * n3 + i2 * n3 + i3) =
                [real i1 / real n1, real i2 / real n2, real i3 / real n3]) \<and>
           pts ! 0 = [0, 0, 0] \<and> count_list pts [0, 0, 0] = 1 \<and>
           (\<forall>p\<in>set pts. length p = 3 \<and> (\<forall>x\<in>set p. 0 \<le> x \<and> x < 1))"
proof -
  let ?N = "n1 * n2 * n3"
  let ?pts = "map (mesh_point n1 n2 n3) [0..<?N]"
  have N: "0 < ?N" using assms by simp
  have nth: "?pts ! p = mesh_point n1 n2 n3 p" if "p < ?N" for p
    using that by simp
  have idx: "\<forall>i1<n1. \<forall>i2<n2. \<forall>i3<n3.
              ?pts ! (i1 * n2 * n3 + i2 * n3 + i3) =
                [real i1 / real n1, real i2 / real n2, real i3 / real n3]"
  proof (intro allI impI)
    fix i1 i2 i3 assume b: "i1 < n1" "i2 < n2" "i3 < n3"
    show "?pts ! (i1 * n2 * n3 + i2 * n3 + i3) =
            [real i1 / real n1, real i2 / real n2, real i3 / real n3]"
      using nth[OF mesh_point_index(1)[OF b]] mesh_point_index(2)[OF b] by simp
  qed
  have first: "?pts ! 0 = [0, 0, 0]"
    using idx assms by (metis add_0 mult_0 of_nat_0 div_0)
  have once: "count_list ?pts [0, 0, 0] = 1"
  proof (rule count_list_first)
    show "?pts \<noteq> []" using N by simp
    show "?pts ! 0 = [0, 0, 0]" by (rule first)
    show "\<forall>i. 0 < i \<and> i < length ?pts \<longrightarrow> ?pts ! i \<noteq> [0, 0, 0]"
    proof (intro allI impI notI)
      fix i assume i: "0 < i \<and> i < length ?pts" and z: "?pts ! i = [0, 0, 0]"
      from i have lt: "i < ?N" by simp
      from z nth[OF lt] have "mesh_point n1 n2 n3 i = [0, 0, 0]" by simp
      from mesh_point_zero[OF lt this] i show False by simp
    qed
  qed
  have range: "\<forall>p\<in>set ?pts. length p = 3 \<and> (\<forall>x\<in>set p. 0 \<le> x \<and> x < 1)"
  proof (intro ballI conjI)
    fix p assume "p \<in> set ?pts"
    then obtain q where q: "q < ?N" "p = mesh_point n1 n2 n3 q" by auto
    show "length p = 3" by (simp add: q(2) mesh_point_def)
    fix x assume "x \<in> set p"
    then show "0 \<le> x" "x < 1" using mesh_point_range[OF q(1)] q(2) by blast+
  qed
  show ?thesis
    by (intro exI[of _ ?pts] conjI mesh_eval[OF assms] idx first once range) simp
qed

theorem k_uniform_mesh_points_witness:
  "(0::nat) < 2 \<and> (0::nat) < 1 \<and> (0::nat) < 2 \<and>
   (\<exists>pts. k_uniform_mesh [2, 1, 2] = Inr pts \<and> length pts = 4 \<and>
      pts ! 0 = [0, 0, 0] \<and> pts ! 1 = [0, 0, 1 / 2] \<and>
      pts ! 2 = [1 / 2, 0, 0] \<and> pts ! 3 = [1 / 2, 0, 1 / 2] \<and>
      count_list pts [0, 0, 0] = 1)"
proof -
  from k_uniform_mesh_points[of 2 1 2] obtain pts where
    p: "k_uniform_mesh [2, 1, 2] = Inr pts" "length pts = 4"
    "\<forall>i1<2. \<forall>i2<1. \<forall>i3<2. pts ! (i1 * 1 * 2 + i2 * 2 + i3) =
        [real i1 / real 2, real i2 / real 1, real i3 / real 2]"
    "pts ! 0 = [0, 0, 0]" "count_list pts [0, 0, 0] = 1"
    by auto
  have "pts ! (0 * 1 * 2 + 0 * 2 + 1) = [real 0 / real 2, real 0 / real 1, real 1 / real 2]"
    using p(3) by (metis zero_less_one one_less_numeral_iff semiring_norm(76) pos2)
  moreover have "pts ! (1 * 1 * 2 + 0 * 2 + 0) = [real 1 / real 2, real 0 / real 1, real 0 / real 2]"
    using p(3) by (metis zero_less_one one_less_numeral_iff semiring_norm(76) pos2)
  moreover have "pts ! (1 * 1 * 2 + 0 * 2 + 1) = [real 1 / real 2, real 0 / real 1, real 1 / real 2]"
    using p(3) by (metis zero_less_one one_less_numeral_iff semiring_norm(76) pos2)
  ultimately have "pts ! 1 = [0, 0, 1 / 2]" "pts ! 2 = [1 / 2, 0, 0]" "pts ! 3 = [1 / 2, 0, 1 / 2]"
    by simp_all
  with p show ?thesis by auto
qed

subsection \<open>The path and its zero divisors\<close>

lemma inv3_unit: "inv3 (gram unit_lat) = Inr unit_lat"
  by (simp add: inv3_def gram_def unit_lat_def det3_def dot_sum_def)

lemma py_round_0: "py_round 0 = 0"
  by (simp add: py_round_def)

lemma lat_chain_model: "lat (chain_model t) = unit_lat"
  by (simp add: chain_model_def)

lemma k_path_nodes3:
  assumes "k_node_of unit_lat [p1, p2, p3] = Inr kn"
    and "length p1 = 3" "length p2 = 3" "length p3 = 3"
  shows "k_path (chain_model t) (Nodes [p1, p2, p3]) 3 =
           bind_err (node_index_of kn 3) (\<lambda>node_index.
           bind_err
             (fold_err (segment node_index kn [p1, p2, p3]) [Suc 0, Suc (Suc 0)]
                (replicate 3 0, (replicate 3 (replicate 3 0))[0 := p1]))
             (\<lambda>st. Inr (snd st, fst st, kn)))"
  using assms
  by (simp add: k_path_def k_list_of_def ragged_def dim_k_def lat_chain_model inv3_unit
      bind_err_def Let_def upt_conv_Cons)

lemma kn_aab: "k_node_of unit_lat [[0, 0, 0], [0, 0, 0], [1, 0, 0]] = Inr [0, 0, 1]"
  by (simp add: k_node_of_def unit_lat_def mat_vec_def dot_sum_def bind_err_def)

lemma ni_aab: "node_index_of [0, 0, 1] 3 = Inr [0, 0, 2]"
  by (simp add: node_index_of_def frac_index_def py_round_0 bind_err_def upt_conv_Cons)

lemma seg_zero: "segment [0, 0, 2] kn kl st (Suc 0) = Inl ZeroDivisionError"
  by (simp add: segment_def seg_step_def upto.simps)

lemma k_path_aab:
  "k_path (chain_model t) (Nodes [[0, 0, 0], [0, 0, 0], [1, 0, 0]]) 3 = Inl ZeroDivisionError"
  by (simp add: k_path_nodes3[OF kn_aab] ni_aab seg_zero bind_err_def)

lemma sqrt_81: "sqrt 81 = 9"
  by (rule real_sqrt_unique) simp_all

lemma kn_abc: "k_node_of unit_lat [[0, 0, 0], [1, 0, 0], [10, 0, 0]] = Inr [0, 1, 10]"
  by (simp add: k_node_of_def unit_lat_def mat_vec_def dot_sum_def bind_err_def sqrt_81)

lemma py_round_fifth: "py_round (1 / 5) = 0"
proof -
  have "\<lfloor>1 / 5 :: real\<rfloor> = 0" by (simp add: floor_eq_iff)
  then show ?thesis by (simp add: py_round_def)
qed

lemma ni_abc: "node_index_of [0, 1, 10] 3 = Inr [0, 0, 2]"
  using py_round_fifth
  by (simp add: node_index_of_def frac_index_def bind_err_def upt_conv_Cons)

lemma k_path_abc:
  "k_path (chain_model t) (Nodes [[0, 0, 0], [1, 0, 0], [10, 0, 0]]) 3 = Inl ZeroDivisionError"
  by (simp add: k_path_nodes3[OF kn_abc] ni_abc seg_zero bind_err_def)

text \<open>
  C8.  Three nodes, not all coincident, and three points pass every check of \<open>k_path\<close>.
  When the second node coincides with the first, or lies so close to it that its index
  rounds to 0, the first segment has \<open>n_f = n_i\<close> and the quotient
  \<open>float(j-n_i)/float(n_f-n_i)\<close> raises \<open>ZeroDivisionError\<close>: no path is returned.
\<close>

theorem k_path_raises_on_colliding_node_indices:
  "k_path (chain_model t) (Nodes [[0, 0, 0], [0, 0, 0], [1, 0, 0]]) 3 = Inl ZeroDivisionError \<and>
   k_path (chain_model t) (Nodes [[0, 0, 0], [1, 0, 0], [10, 0, 0]]) 3 = Inl ZeroDivisionError"
  by (simp add: k_path_aab k_path_abc)

lemma dot_sum_zero_left: "\<forall>x\<in>set a. x = 0 \<Longrightarrow> dot_sum a b = 0"
  unfolding dot_sum_def
proof (induction a arbitrary: b)
  case Nil
  then show ?case by simp
next
  case (Cons x a)
  then show ?case by (cases b) simp_all
qed

lemma map2_minus_self: "\<forall>x\<in>set (map2 (-) p p). x = (0::real)"
  by (auto simp: set_zip)

lemma k_node_loop_same:
  "k_node_loop G p acc (replicate n p) = Inr (replicate n acc)"
proof (induction n)
  case 0
  then show ?case by simp
next
  case (Suc n)
  have q: "dot_sum (map2 (-) p p) (mat_vec G (map2 (-) p p)) = 0"
    by (rule dot_sum_zero_left) (rule map2_minus_self)
  show ?case by (simp add: q Suc bind_err_def)
qed

lemma k_node_of_same: "k_node_of G (replicate (Suc n) p) = Inr (replicate (Suc n) 0)"
  by (simp add: k_node_of_def k_node_loop_same bind_err_def)

lemma node_index_zero:
  "node_index_of (replicate (Suc (Suc (Suc n))) 0) nk = Inl ValueError"
proof -
  have "[1..<Suc (Suc n)] = 1 # [Suc 1..<Suc (Suc n)]"
    by (rule upt_conv_Cons) simp
  then have u: "[1..<Suc (Suc (Suc n)) - 1] = 1 # [Suc 1..<Suc (Suc n)]"
    by simp
  have f: "frac_index (replicate (Suc (Suc (Suc n))) 0) nk 1 = Inl ValueError"
    by (simp add: frac_index_def)
  show ?thesis
    unfolding node_index_of_def length_replicate u map_err.simps f by (simp add: bind_err_def)
qed

lemma seg_fold_no_zero_division:
  "n_f \<noteq> n_i \<Longrightarrow> fold_err (seg_step n_i n_f a b c d) js st \<noteq> Inl ZeroDivisionError"
proof (induction js arbitrary: st)
  case Nil
  then show ?case by simp
next
  case (Cons j js)
  show ?case
  proof (cases "seg_step n_i n_f a b c d st j")
    case (Inl e)
    have "e = IndexError"
      using Inl Cons.prems
      by (auto simp: seg_step_def bind_err_def py_index_def Let_def split: if_splits)
    then show ?thesis using Inl by simp
  next
    case (Inr st')
    then show ?thesis using Cons.IH[OF Cons.prems] by simp
  qed
qed

lemma inv3_error: "inv3 a = Inl e \<Longrightarrow> e = LinAlgError"
  by (auto simp: inv3_def Let_def split: if_splits)

lemma k_path_replicate_unfold:
  assumes "length p = 3" "int (Suc n) \<le> nk"
  shows "k_path m (Nodes (replicate (Suc n) p)) nk =
           bind_err (inv3 (gram (lat m))) (\<lambda>k_metric.
           bind_err (node_index_of (replicate (Suc n) 0) nk) (\<lambda>node_index.
           bind_err
             (fold_err (segment node_index (replicate (Suc n) 0) (replicate (Suc n) p))
                [1..<Suc n]
                (replicate (nat nk) 0, (replicate (nat nk) (replicate dim_k 0))[0 := p]))
             (\<lambda>st. Inr (snd st, fst st, replicate (Suc n) 0))))"
proof -
  have r: "ragged (replicate (Suc n) p) = False"
    by (simp add: ragged_def list_all_iff)
  have nk: "(nk < 1 + int n) = False" using assms(2) by simp
  show ?thesis
    by (simp add: k_path_def k_list_of_def Let_def r nk assms(1) dim_k_def k_node_of_same
        bind_err_def del: replicate.simps)
qed

lemma k_path_coincident_no_zero_division:
  assumes "length p = 3" "2 \<le> n" "int n \<le> nk"
  shows "k_path m (Nodes (replicate n p)) nk \<noteq> Inl ZeroDivisionError"
proof (cases "inv3 (gram (lat m))")
  case (Inl e)
  obtain n' where n: "n = Suc n'" using assms(2) by (cases n) auto
  have h: "int (Suc n') \<le> nk" using assms(3) n by simp
  have "k_path m (Nodes (replicate n p)) nk = Inl e"
    unfolding n k_path_replicate_unfold[OF assms(1) h] Inl bind_err_def by simp
  moreover have "e = LinAlgError" using Inl by (rule inv3_error)
  ultimately show ?thesis by simp
next
  case (Inr G)
  show ?thesis
  proof (cases "n = 2")
    case True
    have h: "int (Suc (Suc 0)) \<le> nk" using assms(3) True by simp
    have nk2: "nk - 1 \<noteq> 0" using assms(3) True by simp
    have ni: "node_index_of (replicate (Suc (Suc 0)) 0) nk = Inr [0, nk - 1]"
      by (simp add: node_index_of_def bind_err_def)
    have u: "[1..<Suc (Suc 0)] = [Suc 0]" by (simp add: upt_conv_Cons)
    have sg: "segment [0, nk - 1] kn kl st (Suc 0) \<noteq> Inl ZeroDivisionError" for kn kl st
    proof -
      have "segment [0, nk - 1] kn kl st (Suc 0) =
              fold_err (seg_step 0 (nk - 1) (kn ! 0) (kn ! Suc 0) (kl ! 0) (kl ! Suc 0))
                [0..nk - 1] st"
        by (simp add: segment_def Let_def)
      moreover have "fold_err (seg_step 0 (nk - 1) (kn ! 0) (kn ! Suc 0) (kl ! 0) (kl ! Suc 0))
                [0..nk - 1] st \<noteq> Inl ZeroDivisionError"
        by (rule seg_fold_no_zero_division) (rule nk2)
      ultimately show ?thesis by simp
    qed
    have n2: "n = Suc (Suc 0)" using True by simp
    show ?thesis
      unfolding n2 k_path_replicate_unfold[OF assms(1) h] Inr ni u bind_err_def
      using sg by (auto split: sum.splits simp del: replicate.simps)
  next
    case False
    then have "3 \<le> n" using assms(2) by simp
    then obtain n' where n: "n = Suc (Suc (Suc n'))"
      by (metis Suc_le_D numeral_3_eq_3 Suc_le_mono)
    have h: "int (Suc (Suc (Suc n'))) \<le> nk" using assms(3) n by simp
    have "k_path m (Nodes (replicate n p)) nk = Inl ValueError"
      unfolding n k_path_replicate_unfold[OF assms(1) h] Inr node_index_zero bind_err_def
      by simp
    then show ?thesis by simp
  qed
qed

lemma coincident_replicate:
  "list_all (\<lambda>p. p = hd nodes) nodes \<Longrightarrow> nodes = replicate (length nodes) (hd nodes)"
  by (simp add: list_all_iff replicate_length_same)

text \<open>
  C10 as stated names two zero divisors for coincident nodes.  The second one, a segment
  with \<open>n_f = n_i\<close>, is never reached on such an input: whatever the model, the nodes and
  the number of points, \<open>k_path\<close> on coincident nodes does not end in the
  \<open>ZeroDivisionError\<close> of the segment loop.
\<close>

theorem coincident_nodes_never_reach_segment_division:
  "\<not> (\<exists>m nodes nk. 2 \<le> length nodes \<and> list_all (\<lambda>p. length p = dim_k) nodes \<and>
        list_all (\<lambda>p. p = hd nodes) nodes \<and> int (length nodes) \<le> nk \<and>
        k_path m (Nodes nodes) nk = Inl ZeroDivisionError)"
proof
  assume "\<exists>m nodes nk. 2 \<le> length nodes \<and> list_all (\<lambda>p. length p = dim_k) nodes \<and>
        list_all (\<lambda>p. p = hd nodes) nodes \<and> int (length nodes) \<le> nk \<and>
        k_path m (Nodes nodes) nk = Inl ZeroDivisionError"
  then obtain m nodes nk where a: "2 \<le> length nodes" "list_all (\<lambda>p. length p = dim_k) nodes"
    "list_all (\<lambda>p. p = hd nodes) nodes" "int (length nodes) \<le> nk"
    "k_path m (Nodes nodes) nk = Inl ZeroDivisionError" by blast
  from a(1) have ne: "nodes \<noteq> []" by auto
  then have "hd nodes \<in> set nodes" by simp
  with a(2) have l: "length (hd nodes) = 3" by (simp add: list_all_iff dim_k_def)
  have r: "nodes = replicate (length nodes) (hd nodes)" using a(3) by (rule coincident_replicate)
  from k_path_coincident_no_zero_division[OF l a(1) a(4), of m] r a(5) show False by simp
qed

lemma kn_aaa: "k_node_of unit_lat [[0, 0, 0], [0, 0, 0], [0, 0, 0]] = Inr [0, 0, 0]"
  using k_node_of_same[of unit_lat "Suc (Suc 0)" "[0, 0, 0]"] by simp

lemma ni_aaa: "node_index_of [0, 0, 0] 3 = Inl ValueError"
  using node_index_zero[of 0 3] by simp

lemma k_path_aaa:
  "k_path (chain_model t) (Nodes [[0, 0, 0], [0, 0, 0], [0, 0, 0]]) 3 = Inl ValueError"
  by (simp add: k_path_nodes3[OF kn_aaa] ni_aaa bind_err_def)

lemma kn_aa: "k_node_of unit_lat [[0, 0, 0], [0, 0, 0]] = Inr [0, 0]"
  using k_node_of_same[of unit_lat "Suc 0" "[0, 0, 0]"] by simp

lemma ni_aa: "node_index_of [0, 0] 2 = Inr [0, 1]"
  by (simp add: node_index_of_def bind_err_def)

lemma sg_aa:
  "segment [0, 1] [0, 0] [[0, 0, 0], [0, 0, 0]] ([0, 0], [[0, 0, 0], [0, 0, 0]]) (Suc 0) =
     Inr ([0, 0], [[0, 0, 0], [0, 0, 0]])"
  by (simp add: segment_def seg_step_def upto.simps py_index_def bind_err_def)

lemma k_path_aa:
  "k_path (chain_model t) (Nodes [[0, 0, 0], [0, 0, 0]]) 2 =
     Inr ([[0, 0, 0], [0, 0, 0]], [0, 0], [0, 0])"
  by (simp add: k_path_def k_list_of_def ragged_def dim_k_def lat_chain_model inv3_unit
      bind_err_def Let_def upt_conv_Cons kn_aa ni_aa sg_aa numeral_2_eq_2 numeral_3_eq_3)

text \<open>
  C10 (amended).  There is an input that passes every check of \<open>k_path\<close> (three coincident
  nodes of length 3, three points) for which the last accumulated node distance is 0, the
  quotient \<open>k_node[1]/k_node[-1]\<close> of the node-index computation has the divisor 0, and
  \<open>k_path\<close> ends in the \<open>ValueError\<close> of converting the resulting \<open>nan\<close>: no path is
  returned.  Two coincident nodes have no interior node, and their path is returned.
\<close>

theorem coincident_nodes_zero_divisor:
  "(\<exists>nodes nk kn. 2 \<le> length nodes \<and> list_all (\<lambda>p. length p = dim_k) nodes \<and>
      list_all (\<lambda>p. p = hd nodes) nodes \<and> int (length nodes) \<le> nk \<and>
      k_node_of unit_lat nodes = Inr kn \<and> last kn = 0 \<and>
      frac_index kn nk 1 = Inl ValueError \<and>
      k_path (chain_model 1) (Nodes nodes) nk = Inl ValueError) \<and>
   k_path (chain_model 1) (Nodes [[0, 0, 0], [0, 0, 0]]) 2 =
     Inr ([[0, 0, 0], [0, 0, 0]], [0, 0], [0, 0])"
proof -
  have kn: "k_node_of unit_lat [[0, 0, 0], [0, 0, 0], [0, 0, 0]] = Inr [0, 0, 0]"
    using k_node_of_same[of unit_lat "Suc (Suc 0)" "[0, 0, 0]"] by simp
  have "\<exists>nodes nk kn. 2 \<le> length nodes \<and> list_all (\<lambda>p. length p = dim_k) nodes \<and>
      list_all (\<lambda>p. p = hd nodes) nodes \<and> int (length nodes) \<le> nk \<and>
      k_node_of unit_lat nodes = Inr kn \<and> last kn = 0 \<and>
      frac_index kn nk 1 = Inl ValueError \<and>
      k_path (chain_model 1) (Nodes nodes) nk = Inl ValueError"
    apply (rule exI[of _ "[[0, 0, 0], [0, 0, 0], [0, 0, 0]]"])
    apply (rule exI[of _ 3])
    apply (rule exI[of _ "[0, 0, 0]"])
    apply (simp add: kn k_path_aaa dim_k_def frac_index_def)
    done
  then show ?thesis using k_path_aa[of 1] by blast
qed

subsection \<open>Rejected inputs\<close>

text \<open>
  C9.  A 3 by 3 lattice whose determinant is below \<open>1e-6\<close> in absolute value is rejected by
  the constructor with its volume exception, and a path with fewer points than nodes (nodes
  of length 3) is rejected with the exception about the number of points.  The result is
  the failure alone: no model and no path is returned.
\<close>

theorem init_and_path_reject:
  "(length lat0 = 3 \<and> list_all (\<lambda>r. length r = 3) lat0 \<and> \<bar>det3 lat0\<bar> < 1 / 10 ^ 6 \<longrightarrow>
      tb_model_init lat0 orb0 deg_ws0 Rvec_list0 Hmat_list0 nspin0 =
        Inl (Exception msg_zero_volume)) \<and>
   (nodes \<noteq> [] \<and> list_all (\<lambda>p. length p = 3) nodes \<and> nk < int (length nodes) \<longrightarrow>
      k_path m (Nodes nodes) nk = Inl (Exception msg_more_points))"
proof (intro conjI impI)
  assume a: "length lat0 = 3 \<and> list_all (\<lambda>r. length r = 3) lat0 \<and> \<bar>det3 lat0\<bar> < 1 / 10 ^ 6"
  then have "lat0 \<noteq> []" by auto
  then have "length (hd lat0) = 3" using a by (cases lat0) auto
  then have "\<not> ragged lat0" using a by (simp add: ragged_def)
  then show "tb_model_init lat0 orb0 deg_ws0 Rvec_list0 Hmat_list0 nspin0 =
               Inl (Exception msg_zero_volume)"
    using a by (simp add: tb_model_init_def dim_r_def)
next
  assume a: "nodes \<noteq> [] \<and> list_all (\<lambda>p. length p = 3) nodes \<and> nk < int (length nodes)"
  then have h: "length (hd nodes) = 3" by (cases nodes) auto
  then have "\<not> ragged nodes" using a by (simp add: ragged_def)
  then show "k_path m (Nodes nodes) nk = Inl (Exception msg_more_points)"
    using a h by (simp add: k_path_def k_list_of_def dim_k_def)
qed

theorem init_and_path_reject_witness:
  "tb_model_init [[0, 0, 0], [0, 0, 0], [0, 0, 0]] [[0, 0, 0]] [] [] [] 1 =
     Inl (Exception msg_zero_volume) \<and>
   k_path (chain_model 1) (Nodes [[0, 0, 0], [1 / 2, 0, 0], [1, 0, 0]]) 2 =
     Inl (Exception msg_more_points)"
  using init_and_path_reject[where ?lat0.0 = "[[0, 0, 0], [0, 0, 0], [0, 0, 0]]"
      and nodes = "[[0, 0, 0], [1 / 2, 0, 0], [1, 0, 0]]" and nk = 2 and ?orb0.0 = "[[0, 0, 0]]"
      and ?deg_ws0.0 = "[]" and ?Rvec_list0.0 = "[]" and ?Hmat_list0.0 = "[]" and ?nspin0.0 = 1
      and m = "chain_model 1"]
  by (simp add: det3_def)

subsection \<open>Constructed models\<close>

text \<open>
  A model that the constructor returns has the orbital array the data model asks for: the
  number of orbitals is the number of rows, every row has three coordinates, and the
  lattice has a volume of at least \<open>1e-6\<close>.
\<close>

lemma tb_model_init_shape:
  assumes "tb_model_init lat0 orb0 deg_ws0 Rvec_list0 Hmat_list0 nspin0 = Inr m"
  shows "norb m = length (orb m) \<and> list_all (\<lambda>r. length r = 3) (orb m) \<and>
         0 < norb m \<and> 1 / 10 ^ 6 \<le> det3 (lat m) \<and> shells m =
           zip deg_ws0 (zip Rvec_list0 Hmat_list0)"
proof -
  from assms have r: "\<not> ragged orb0" and h: "length (hd orb0) = 3" and ne: "orb0 \<noteq> []"
    and d: "\<not> \<bar>det3 lat0\<bar> < 1 / 10 ^ 6" "\<not> det3 lat0 < 0"
    and m: "m = \<lparr> lat = lat0, orb = orb0, norb = length orb0, nspin = nspin0,
                 deg_ws = deg_ws0, Rvec_list = Rvec_list0, Hmat_list = Hmat_list0 \<rparr>"
    by (auto simp: tb_model_init_def dim_r_def split: if_splits)
  from r h have "list_all (\<lambda>r. length r = 3) orb0" by (simp add: ragged_def)
  moreover from d have "1 / 10 ^ 6 \<le> det3 lat0" by linarith
  ultimately show ?thesis using ne by (simp add: m shells_def)
qed

end
